theory Spec2Isabelle
  imports Main "HOL-Library.Sublist" "HOL-Library.Multiset"
begin

section \<open>JavaScript strings\<close>

text \<open>
  A JavaScript string is a sequence of UTF-16 code units. The model uses \<^typ>\<open>string\<close>
  and reads each \<^typ>\<open>char\<close> as one code unit in the range 0..255, so \<open>length\<close> is the
  \<open>.length\<close> of the source. The ECMAScript WhiteSpace and LineTerminator code points
  in that range are TAB, LF, VT, FF, CR, SPACE and NBSP; they are what \<open>String.prototype.trim\<close>
  removes and what the regular expression class \<open>\s\<close> matches.
\<close>

definition isWhiteSpace :: "char \<Rightarrow> bool" where
  "isWhiteSpace c =
     (c = CHR 0x09 \<or> c = CHR 0x0A \<or> c = CHR 0x0B \<or> c = CHR 0x0C \<or>
      c = CHR 0x0D \<or> c = CHR 0x20 \<or> c = CHR 0xA0)"

definition trimStart :: "string \<Rightarrow> string" where
  "trimStart s = dropWhile isWhiteSpace s"

definition trimEnd :: "string \<Rightarrow> string" where
  "trimEnd s = rev (dropWhile isWhiteSpace (rev s))"

definition trim :: "string \<Rightarrow> string" where
  "trim s = trimEnd (trimStart s)"

text \<open>
  \<open>s.indexOf(p)\<close>: the least position at which \<open>p\<close> occurs in \<open>s\<close>; the source's
  \<open>-1\<close> is \<open>None\<close>. The empty pattern occurs at position 0.
\<close>

fun indexOf :: "string \<Rightarrow> string \<Rightarrow> nat option" where
  "indexOf [] p = (if p = [] then Some 0 else None)"
| "indexOf (c # cs) p =
     (if prefix p (c # cs) then Some 0 else map_option Suc (indexOf cs p))"

definition includesStr :: "string \<Rightarrow> string \<Rightarrow> bool" where
  "includesStr s p = (indexOf s p \<noteq> None)"

text \<open>
  \<open>s.substring(a, b)\<close> clamps both arguments to \<open>[0, s.length]\<close> and swaps them when
  \<open>a > b\<close>; \<open>s.substring(a)\<close> runs to the end of the string.
\<close>

definition substring :: "string \<Rightarrow> nat \<Rightarrow> nat \<Rightarrow> string" where
  "substring s a b =
     (let a' = min a (length s); b' = min b (length s);
          lo = min a' b'; hi = max a' b'
      in take (hi - lo) (drop lo s))"

definition substringFrom :: "string \<Rightarrow> nat \<Rightarrow> string" where
  "substringFrom s a = drop (min a (length s)) s"

text \<open>\<open>parts.join(sep)\<close>.\<close>

fun join :: "string \<Rightarrow> string list \<Rightarrow> string" where
  "join sep [] = []"
| "join sep [x] = x"
| "join sep (x # y # ys) = x @ sep @ join sep (y # ys)"

section \<open>Marker codec (description.ts)\<close>

definition DEFAULT_MARKER :: string where
  "DEFAULT_MARKER = ''<!-- gemini-pr-description -->''"

definition END_MARKER_SUFFIX :: string where
  "END_MARKER_SUFFIX = ''-end''"

text \<open>
  \<open>marker.replace(/\s*-->$/, '')\<close>. The pattern has no flags, so \<open>$\<close> is the end of
  the input and only the leftmost match is replaced: when the string ends with \<open>-->\<close>
  the match is that arrow together with the whole run of white space before it; otherwise
  nothing matches and the string is returned as it is.
\<close>

definition replaceClosing :: "string \<Rightarrow> string" where
  "replaceClosing s =
     (if suffix ''-->'' s then trimEnd (take (length s - 3) s) else s)"

record markers =
  markerStart :: string
  markerEnd :: string

definition getMarkers :: "string \<Rightarrow> markers" where
  "getMarkers marker =
     (let baseMarker = trim (replaceClosing marker)
      in \<lparr> markerStart = marker,
           markerEnd = baseMarker @ END_MARKER_SUFFIX @ '' -->'' \<rparr>)"

definition hasGeneratedContent :: "string \<Rightarrow> string \<Rightarrow> bool" where
  "hasGeneratedContent description marker =
     (let m = getMarkers marker
      in includesStr description (markerStart m) \<and> includesStr description (markerEnd m))"

record parsed =
  beforeMarker :: string
  generatedContent :: string
  afterMarker :: string

definition parseDescription :: "string \<Rightarrow> string \<Rightarrow> parsed" where
  "parseDescription description marker =
     (let m = getMarkers marker;
          startIdx = indexOf description (markerStart m);
          endIdx = indexOf description (markerEnd m)
      in case (startIdx, endIdx) of
           (Some i, Some j) \<Rightarrow>
             if i \<ge> j
             then \<lparr> beforeMarker = description, generatedContent = [], afterMarker = [] \<rparr>
             else \<lparr> beforeMarker = trim (substring description 0 i),
                    generatedContent =
                      trim (substring description (i + length (markerStart m)) j),
                    afterMarker =
                      trim (substringFrom description (j + length (markerEnd m))) \<rparr>
         | _ \<Rightarrow> \<lparr> beforeMarker = description, generatedContent = [], afterMarker = [] \<rparr>)"

definition wrapWithMarkers :: "string \<Rightarrow> string \<Rightarrow> string" where
  "wrapWithMarkers content marker =
     (let m = getMarkers marker
      in markerStart m @ ''\<newline>\<newline>'' @ content @ ''\<newline>\<newline>'' @ markerEnd m)"

section \<open>Update-mode policy (description.ts)\<close>

datatype UpdateMode = Empty | Append | Replace | Smart

record decision =
  generate :: bool
  reason :: string

fun shouldGenerate :: "string \<Rightarrow> UpdateMode \<Rightarrow> string \<Rightarrow> decision" where
  "shouldGenerate currentDescription Empty marker =
     (let trimmedDescription = trim currentDescription
      in if length trimmedDescription = 0
         then \<lparr> generate = True, reason = ''Description is empty'' \<rparr>
         else \<lparr> generate = False, reason = ''Description is not empty (mode: empty)'' \<rparr>)"
| "shouldGenerate currentDescription Append marker =
     \<lparr> generate = True, reason = ''Appending to existing description'' \<rparr>"
| "shouldGenerate currentDescription Replace marker =
     \<lparr> generate = True, reason = ''Replacing entire description'' \<rparr>"
| "shouldGenerate currentDescription Smart marker =
     \<lparr> generate = True, reason = ''Using smart mode with markers'' \<rparr>"

fun applyUpdateMode :: "string \<Rightarrow> string \<Rightarrow> UpdateMode \<Rightarrow> string \<Rightarrow> string" where
  "applyUpdateMode existingDescription generatedText Empty marker =
     wrapWithMarkers generatedText marker"
| "applyUpdateMode existingDescription generatedText Append marker =
     (let wrappedContent = wrapWithMarkers generatedText marker
      in if trim existingDescription \<noteq> []
         then trim existingDescription @ ''\<newline>\<newline>---\<newline>\<newline>'' @ wrappedContent
         else wrappedContent)"
| "applyUpdateMode existingDescription generatedText Replace marker =
     wrapWithMarkers generatedText marker"
| "applyUpdateMode existingDescription generatedText Smart marker =
     (let wrappedContent = wrapWithMarkers generatedText marker
      in if hasGeneratedContent existingDescription marker
         then (let p = parseDescription existingDescription marker;
                   parts = filter (\<lambda>s. length (trim s) > 0)
                             [beforeMarker p, wrappedContent, afterMarker p]
               in join ''\<newline>\<newline>'' parts)
         else if trim existingDescription \<noteq> []
         then trim existingDescription @ ''\<newline>\<newline>'' @ wrappedContent
         else wrappedContent)"

section \<open>Diff reducer (github.ts)\<close>

datatype FileStatus = Added | Removed | Modified | Renamed | Copied

record FileChange =
  filename :: string
  status :: FileStatus
  additions :: int
  deletions :: int
  patch :: "string option"

text \<open>\<open>file.patch?.length || 0\<close>: an absent patch counts as length 0.\<close>

definition patchLength :: "FileChange \<Rightarrow> int" where
  "patchLength file = (case patch file of None \<Rightarrow> 0 | Some p \<Rightarrow> int (length p))"

text \<open>\<open>files.reduce((sum, f) => sum + (f.patch?.length || 0), 0)\<close>.\<close>

definition totalPatchLength :: "FileChange list \<Rightarrow> int" where
  "totalPatchLength files = sum_list (map patchLength files)"

text \<open>
  \<open>Array.prototype.sort\<close> with a comparator is a stable sort: an element is placed before
  the first element it does not compare greater than, and elements that compare equal keep
  their order.
\<close>

fun insertBy :: "('a \<Rightarrow> 'a \<Rightarrow> int) \<Rightarrow> 'a \<Rightarrow> 'a list \<Rightarrow> 'a list" where
  "insertBy cmp x [] = [x]"
| "insertBy cmp x (y # ys) =
     (if cmp x y \<le> 0 then x # y # ys else y # insertBy cmp x ys)"

definition sortBy :: "('a \<Rightarrow> 'a \<Rightarrow> int) \<Rightarrow> 'a list \<Rightarrow> 'a list" where
  "sortBy cmp xs = foldr (insertBy cmp) xs []"

definition TRUNCATED :: string where
  "TRUNCATED = ''\<newline>... (truncated)''"

text \<open>
  The body of the \<open>for\<close> loop of \<open>truncatePatches\<close>, with the two mutable variables
  \<open>currentSize\<close> and \<open>result\<close> passed along. In the truncating branch
  \<open>remainingSpace\<close> is positive, so \<open>substring(0, remainingSpace)\<close> takes a
  natural number.
\<close>

fun truncateLoop :: "int \<Rightarrow> FileChange list \<Rightarrow> int \<Rightarrow> FileChange list \<Rightarrow> FileChange list" where
  "truncateLoop maxDiffSize [] currentSize result = result"
| "truncateLoop maxDiffSize (file # rest) currentSize result =
     (let patchSize = patchLength file
      in if currentSize + patchSize \<le> maxDiffSize
         then truncateLoop maxDiffSize rest (currentSize + patchSize) (result @ [file])
         else if currentSize < maxDiffSize
         then (let remainingSpace = maxDiffSize - currentSize;
                   truncatedPatch =
                     map_option (\<lambda>p. substring p 0 (nat remainingSpace)) (patch file)
               in truncateLoop maxDiffSize rest maxDiffSize
                    (result @ [file\<lparr> patch :=
                       (case truncatedPatch of
                          None \<Rightarrow> None
                        | Some t \<Rightarrow> if t \<noteq> [] then Some (t @ TRUNCATED) else None) \<rparr>]))
         else truncateLoop maxDiffSize rest currentSize (result @ [file\<lparr> patch := None \<rparr>]))"

text \<open>
  \<open>String.prototype.localeCompare\<close> is the collation of the host's locale; it is the
  parameter \<open>localeCompare\<close> of the model.
\<close>

definition truncatePatches ::
    "(string \<Rightarrow> string \<Rightarrow> int) \<Rightarrow> FileChange list \<Rightarrow> int \<Rightarrow> FileChange list" where
  "truncatePatches localeCompare files maxDiffSize =
     (let sortedFiles = sortBy (\<lambda>a b. patchLength b - patchLength a) files;
          result = truncateLoop maxDiffSize sortedFiles 0 []
      in sortBy (\<lambda>a b. localeCompare (filename a) (filename b)) result)"

text \<open>
  The reduction step of \<open>fetchPRDiff\<close>: the total patch length of the fetched files is
  compared with \<open>maxDiffSize\<close>, and only a total above it sends the files through
  \<open>truncatePatches\<close>; otherwise the files stay as they were fetched.
\<close>

definition reduceDiff ::
    "(string \<Rightarrow> string \<Rightarrow> int) \<Rightarrow> FileChange list \<Rightarrow> int \<Rightarrow> FileChange list" where
  "reduceDiff localeCompare files maxDiffSize =
     (let totalDiffSize = totalPatchLength files
      in if totalDiffSize > maxDiffSize
         then truncatePatches localeCompare files maxDiffSize
         else files)"

text \<open>
  A comparator orders consistently when it is total and transitive as a preorder; this is
  what a sort needs of \<open>localeCompare\<close> to return an ordered array.
\<close>

definition consistentComparator :: "('a \<Rightarrow> 'a \<Rightarrow> int) \<Rightarrow> bool" where
  "consistentComparator cmp =
     ((\<forall>a b. 0 < cmp a b \<longrightarrow> cmp b a \<le> 0) \<and>
      (\<forall>a b c. cmp a b \<le> 0 \<and> cmp b c \<le> 0 \<longrightarrow> cmp a c \<le> 0))"

text \<open>Comparison of strings by code units, an instance of a consistent comparator.\<close>

fun codeUnitCompare :: "string \<Rightarrow> string \<Rightarrow> int" where
  "codeUnitCompare [] [] = 0"
| "codeUnitCompare [] (y # ys) = - 1"
| "codeUnitCompare (x # xs) [] = 1"
| "codeUnitCompare (x # xs) (y # ys) =
     (if (of_char x :: nat) < of_char y then - 1
      else if (of_char y :: nat) < of_char x then 1
      else codeUnitCompare xs ys)"

section \<open>Generator retry loop (gemini.ts)\<close>

text \<open>
  \<open>String.prototype.toLowerCase\<close> on code units in the range 0..255: the letters A-Z and
  the Latin-1 capitals 0xC0-0xDE (without the multiplication sign 0xD7) move up by 32.
\<close>

definition toLowerChar :: "char \<Rightarrow> char" where
  "toLowerChar c =
     (let n = (of_char c :: nat)
      in if (65 \<le> n \<and> n \<le> 90) \<or> (192 \<le> n \<and> n \<le> 222 \<and> n \<noteq> 215)
         then char_of (n + 32) else c)"

definition toLowerCase :: "string \<Rightarrow> string" where
  "toLowerCase s = map toLowerChar s"

definition isRetryableError :: "string \<Rightarrow> bool" where
  "isRetryableError errorMessage =
     (let message = toLowerCase errorMessage
      in if includesStr message ''rate limit'' \<or> includesStr message ''quota'' then True
         else if includesStr message ''503'' \<or> includesStr message ''service unavailable'' then True
         else if includesStr message ''timeout'' \<or> includesStr message ''timed out'' then True
         else if includesStr message ''500'' \<or> includesStr message ''internal server error'' then True
         else False)"

text \<open>
  What one call of \<open>model.generateContent\<close> does: it throws an error with a message, or
  resolves with no response, or with a response whose \<open>text()\<close> is a string.
\<close>

datatype apiOutcome = Throws string | NoResponse | Text string

text \<open>The body of the \<open>try\<close> block: the error message thrown, or the text returned.\<close>

fun attemptBody :: "apiOutcome \<Rightarrow> string + string" where
  "attemptBody (Throws msg) = Inl msg"
| "attemptBody NoResponse = Inl ''No response received from Gemini API''"
| "attemptBody (Text text) =
     (if text = [] \<or> length (trim text) = 0
      then Inl ''Empty response received from Gemini API''
      else Inr (trim text))"

datatype event = Attempt nat | Sleep nat

record generation =
  outcome :: "string + string"
  trace :: "event list"

definition maxRetries :: nat where
  "maxRetries = 3"

text \<open>
  The \<open>for\<close> loop of \<open>generateDescription\<close>. \<open>api attempt\<close> is what the call of
  attempt number \<open>attempt\<close> does; the trace records every call and every \<open>sleep(delay)\<close>
  with its delay in milliseconds.
\<close>

function attemptLoop ::
    "(nat \<Rightarrow> apiOutcome) \<Rightarrow> nat \<Rightarrow> string option \<Rightarrow> event list \<Rightarrow> generation" where
  "attemptLoop api attempt lastError tr =
     (if attempt \<le> maxRetries
      then (case attemptBody (api attempt) of
              Inr text \<Rightarrow> \<lparr> outcome = Inr text, trace = tr @ [Attempt attempt] \<rparr>
            | Inl err \<Rightarrow>
                if isRetryableError err
                then (if attempt < maxRetries
                      then attemptLoop api (attempt + 1) (Some err)
                             (tr @ [Attempt attempt, Sleep (2 ^ attempt * 1000)])
                      else attemptLoop api (attempt + 1) (Some err) (tr @ [Attempt attempt]))
                else \<lparr> outcome = Inl err, trace = tr @ [Attempt attempt] \<rparr>)
      else \<lparr> outcome =
               Inl (case lastError of
                      Some err \<Rightarrow> err
                    | None \<Rightarrow> ''Failed to generate description after all retries''),
             trace = tr \<rparr>)"
  by pat_completeness auto
termination
  by (relation "measure (\<lambda>(api, attempt, lastError, tr). maxRetries + 1 - attempt)") auto

declare attemptLoop.simps [simp del]

definition generateDescription :: "(nat \<Rightarrow> apiOutcome) \<Rightarrow> generation" where
  "generateDescription api = attemptLoop api 1 None []"

text \<open>The calls made in a trace, and the error an attempt ends with, if any.\<close>

definition attempts :: "event list \<Rightarrow> nat list" where
  "attempts tr = concat (map (\<lambda>e. case e of Attempt n \<Rightarrow> [n] | Sleep d \<Rightarrow> []) tr)"

definition failure :: "(nat \<Rightarrow> apiOutcome) \<Rightarrow> nat \<Rightarrow> string option" where
  "failure api n = (case attemptBody (api n) of Inl err \<Rightarrow> Some err | Inr text \<Rightarrow> None)"

section \<open>Notions used to state the properties\<close>

text \<open>The characters of a string that are not white space.\<close>

definition nonWhite :: "string \<Rightarrow> string" where
  "nonWhite s = filter (\<lambda>c. \<not> isWhiteSpace c) s"

text \<open>Pattern \<open>p\<close> occurs in \<open>s\<close> at position \<open>k\<close>, and it does so for the first time.\<close>

definition occursAt :: "string \<Rightarrow> string \<Rightarrow> nat \<Rightarrow> bool" where
  "occursAt s p k = (k \<le> length s \<and> prefix p (drop k s))"

definition firstOccurrence :: "string \<Rightarrow> string \<Rightarrow> nat \<Rightarrow> bool" where
  "firstOccurrence s p k = (occursAt s p k \<and> list_all (\<lambda>j. \<not> occursAt s p j) [0..<k])"

definition degenerate :: "string \<Rightarrow> parsed" where
  "degenerate description =
     \<lparr> beforeMarker = description, generatedContent = [], afterMarker = [] \<rparr>"

text \<open>
  The split as the specification words it: at the first occurrence of the start marker and
  the first occurrence of the end marker strictly after the start marker's position.
\<close>

definition indexOfAfter :: "string \<Rightarrow> string \<Rightarrow> nat \<Rightarrow> nat option" where
  "indexOfAfter s p i = map_option (\<lambda>k. k + Suc i) (indexOf (drop (Suc i) s) p)"

definition parseAsSpecified :: "string \<Rightarrow> string \<Rightarrow> parsed" where
  "parseAsSpecified description marker =
     (let m = getMarkers marker
      in case indexOf description (markerStart m) of
           None \<Rightarrow> degenerate description
         | Some i \<Rightarrow>
             (case indexOfAfter description (markerEnd m) i of
                None \<Rightarrow> degenerate description
              | Some j \<Rightarrow>
                  \<lparr> beforeMarker = trim (substring description 0 i),
                    generatedContent =
                      trim (substring description (i + length (markerStart m)) j),
                    afterMarker =
                      trim (substringFrom description (j + length (markerEnd m))) \<rparr>))"

text \<open>
  A comparator that ignores letter case, as the collation of a locale does where the
  comparison by code units does not: it puts \<open>a.ts\<close> before \<open>B.ts\<close>.
\<close>

definition foldCaseCompare :: "string \<Rightarrow> string \<Rightarrow> int" where
  "foldCaseCompare a b = codeUnitCompare (toLowerCase a) (toLowerCase b)"

text \<open>
  The lexicographic order of strings by code units, and a list of files in this order of
  their names.
\<close>

definition lexLess :: "(string \<times> string) set" where
  "lexLess = lexord {(x, y). (of_char x :: nat) < of_char y}"

definition lexOrdered :: "FileChange list \<Rightarrow> bool" where
  "lexOrdered files =
     sorted_wrt (\<lambda>a b. filename a = filename b \<or> (filename a, filename b) \<in> lexLess) files"

text \<open>
  The position of the closing end marker in \<open>wrapWithMarkers content marker\<close>: after
  the start marker, a blank line, the content and a blank line.
\<close>

definition closingPosition :: "string \<Rightarrow> string \<Rightarrow> nat" where
  "closingPosition content marker =
     length (markerStart (getMarkers marker)) + 2 + length content + 2"

text \<open>
  A base marker in the delimiter format of the default marker: an HTML comment, opened by
  \<open><!--\<close> and closed by \<open>-->\<close>.
\<close>

definition delimiterFormat :: "string \<Rightarrow> bool" where
  "delimiterFormat marker = (prefix ''<!--'' marker \<and> suffix ''-->'' marker)"

text \<open>A base marker that stays on one line: it holds no line feed.\<close>

definition singleLine :: "string \<Rightarrow> bool" where
  "singleLine marker = (CHR 0x0A \<notin> set marker)"

text \<open>The blank-line join of the smart mode, with the empty regions left out.\<close>

definition splice :: "string \<Rightarrow> string \<Rightarrow> string \<Rightarrow> string" where
  "splice before wrapped after =
     (if before = [] then [] else before @ ''\<newline>\<newline>'') @ wrapped @
     (if after = [] then [] else ''\<newline>\<newline>'' @ after)"

text \<open>
  Every attempt before attempt \<open>k\<close> ended with an error that \<open>isRetryableError\<close>
  accepts, and the trace of a run whose attempts before \<open>k\<close> were all retried: a call
  and a sleep of \<open>2 ^ n * 1000\<close> milliseconds for each of them, then the call of
  attempt \<open>k\<close>.
\<close>

definition retryableUntil :: "(nat \<Rightarrow> apiOutcome) \<Rightarrow> nat \<Rightarrow> bool" where
  "retryableUntil api k =
     list_all (\<lambda>n. case failure api n of Some err \<Rightarrow> isRetryableError err | None \<Rightarrow> False)
       [1..<k]"

definition retryTrace :: "nat \<Rightarrow> event list" where
  "retryTrace k = concat (map (\<lambda>n. [Attempt n, Sleep (2 ^ n * 1000)]) [1..<k]) @ [Attempt k]"

definition transientSignatures :: "string list" where
  "transientSignatures =
     [''rate limit'', ''quota'', ''503'', ''service unavailable'',
      ''timeout'', ''timed out'', ''500'', ''internal server error'']"

section \<open>Update-mode policy: when to generate\<close>

text \<open>
  Claim C5. For every current description and every update mode, \<open>shouldGenerate\<close>
  answers \<open>generate = true\<close> exactly when the mode is not \<open>empty\<close> or the trimmed
  description is the empty string: the empty description in mode \<open>empty\<close> generates, a
  description that is not blank in mode \<open>empty\<close> does not, and the modes \<open>append\<close>,
  \<open>replace\<close> and \<open>smart\<close> always generate.
\<close>

theorem shouldGenerate_empty_mode_only:
  "(generate (shouldGenerate d mode marker) \<longleftrightarrow> (mode \<noteq> Empty \<or> trim d = []))
   \<and> generate (shouldGenerate [] Empty marker)
   \<and> (trim d \<noteq> [] \<longrightarrow> \<not> generate (shouldGenerate d Empty marker))
   \<and> generate (shouldGenerate d Append marker)
   \<and> generate (shouldGenerate d Replace marker)
   \<and> generate (shouldGenerate d Smart marker)"
  by (cases mode) (simp_all add: trim_def trimStart_def trimEnd_def)

theorem shouldGenerate_empty_mode_only_witness:
  "trim ''non-empty'' \<noteq> [] \<and> \<not> generate (shouldGenerate ''non-empty'' Empty DEFAULT_MARKER)
   \<and> generate (shouldGenerate ''   \<newline>\<newline>  '' Empty DEFAULT_MARKER)
   \<and> generate (shouldGenerate ''non-empty'' Smart DEFAULT_MARKER)"
proof -
  have a: "trim ''non-empty'' \<noteq> []"
    by (simp add: trim_def trimStart_def trimEnd_def isWhiteSpace_def)
  have b: "trim ''   \<newline>\<newline>  '' = []"
    by (simp add: trim_def trimStart_def trimEnd_def isWhiteSpace_def)
  from a b shouldGenerate_empty_mode_only [of "''non-empty''" Empty DEFAULT_MARKER]
    shouldGenerate_empty_mode_only [of "''   \<newline>\<newline>  ''" Empty DEFAULT_MARKER]
    shouldGenerate_empty_mode_only [of "''non-empty''" Smart DEFAULT_MARKER]
  show ?thesis by blast
qed

section \<open>Update-mode policy: append\<close>

text \<open>
  Claim C6. In mode \<open>append\<close>, \<open>applyUpdateMode\<close> returns the trimmed existing
  description, a blank line, the separator \<open>---\<close>, a blank line and the generated text
  wrapped in its markers when the trimmed existing description is not empty, and only the
  wrapped text when it is empty.
\<close>

theorem applyUpdateMode_append:
  "applyUpdateMode existing generated Append marker =
     (if trim existing \<noteq> []
      then trim existing @ ''\<newline>\<newline>'' @ ''---'' @ ''\<newline>\<newline>'' @ wrapWithMarkers generated marker
      else wrapWithMarkers generated marker)
   \<and> wrapWithMarkers generated marker =
       markerStart (getMarkers marker) @ ''\<newline>\<newline>'' @ generated @ ''\<newline>\<newline>''
         @ markerEnd (getMarkers marker)"
  by (simp add: wrapWithMarkers_def Let_def)

theorem applyUpdateMode_append_witness:
  "applyUpdateMode ''Hello'' ''World'' Append DEFAULT_MARKER =
     ''Hello\<newline>\<newline>---\<newline>\<newline><!-- gemini-pr-description -->\<newline>\<newline>World\<newline>\<newline><!-- gemini-pr-description-end -->''
   \<and> applyUpdateMode '' \<newline>'' ''World'' Append DEFAULT_MARKER =
     ''<!-- gemini-pr-description -->\<newline>\<newline>World\<newline>\<newline><!-- gemini-pr-description-end -->''"
proof -
  have t: "trim ''Hello'' = ''Hello''" "trim '' \<newline>'' = []"
    by (simp_all add: trim_def trimStart_def trimEnd_def isWhiteSpace_def)
  have m: "getMarkers DEFAULT_MARKER =
     \<lparr> markerStart = ''<!-- gemini-pr-description -->'',
       markerEnd = ''<!-- gemini-pr-description-end -->'' \<rparr>"
    by (simp add: getMarkers_def DEFAULT_MARKER_def END_MARKER_SUFFIX_def replaceClosing_def
        suffix_def trim_def trimStart_def trimEnd_def isWhiteSpace_def)
  show ?thesis
    using applyUpdateMode_append [of "''Hello''" "''World''" DEFAULT_MARKER]
      applyUpdateMode_append [of "'' \<newline>''" "''World''" DEFAULT_MARKER]
    by (simp add: t m)
qed

section \<open>Diff reducer: the file list\<close>

lemma mset_insertBy: "mset (insertBy cmp x xs) = add_mset x (mset xs)"
  by (induction xs) auto

lemma mset_sortBy: "mset (sortBy cmp xs) = mset xs"
  unfolding sortBy_def by (induction xs) (auto simp: mset_insertBy)

lemma set_insertBy: "set (insertBy cmp x xs) = insert x (set xs)"
  by (induction xs) auto

lemma sorted_insertBy:
  assumes "consistentComparator cmp" and "sorted_wrt (\<lambda>a b. cmp a b \<le> 0) xs"
  shows "sorted_wrt (\<lambda>a b. cmp a b \<le> 0) (insertBy cmp x xs)"
  using assms(2)
proof (induction xs)
  case Nil
  then show ?case by simp
next
  case (Cons y ys)
  have total: "\<And>a b. 0 < cmp a b \<Longrightarrow> cmp b a \<le> 0"
    and trans: "\<And>a b c. cmp a b \<le> 0 \<Longrightarrow> cmp b c \<le> 0 \<Longrightarrow> cmp a c \<le> 0"
    using assms(1) unfolding consistentComparator_def by blast+
  show ?case
  proof (cases "cmp x y \<le> 0")
    case True
    with Cons.prems trans show ?thesis by auto
  next
    case False
    then have "cmp y x \<le> 0" using total [of x y] by simp
    with False Cons show ?thesis by (auto simp: set_insertBy)
  qed
qed

lemma sorted_sortBy:
  "consistentComparator cmp \<Longrightarrow> sorted_wrt (\<lambda>a b. cmp a b \<le> 0) (sortBy cmp xs)"
  unfolding sortBy_def by (induction xs) (auto intro: sorted_insertBy)

lemma consistent_on_filename:
  assumes "consistentComparator cmp"
  shows "consistentComparator (\<lambda>a b. cmp (filename a) (filename b))"
  using assms unfolding consistentComparator_def by blast

lemma filenames_truncateLoop:
  "map filename (truncateLoop maxDiffSize files currentSize result) =
     map filename result @ map filename files"
  by (induction files arbitrary: currentSize result) (auto simp: Let_def)

lemma codeUnitCompare_Cons_le:
  "codeUnitCompare (x # xs) (y # ys) \<le> 0 \<longleftrightarrow>
     (of_char x :: nat) < of_char y \<or> ((of_char x :: nat) = of_char y \<and> codeUnitCompare xs ys \<le> 0)"
  by auto

lemma codeUnitCompare_total: "0 < codeUnitCompare a b \<Longrightarrow> codeUnitCompare b a \<le> 0"
  by (induction a b rule: codeUnitCompare.induct) (auto split: if_splits)

lemma codeUnitCompare_trans:
  "codeUnitCompare a b \<le> 0 \<Longrightarrow> codeUnitCompare b c \<le> 0 \<Longrightarrow> codeUnitCompare a c \<le> 0"
proof (induction a arbitrary: b c)
  case Nil
  then show ?case by (cases c) simp_all
next
  case (Cons x xs)
  from Cons.prems(1) obtain y ys where b: "b = y # ys" by (cases b) simp_all
  from Cons.prems(2) b obtain z zs where c: "c = z # zs" by (cases c) simp_all
  from Cons.prems b c
  have xy: "(of_char x :: nat) < of_char y \<or> ((of_char x :: nat) = of_char y \<and> codeUnitCompare xs ys \<le> 0)"
    and yz: "(of_char y :: nat) < of_char z \<or> ((of_char y :: nat) = of_char z \<and> codeUnitCompare ys zs \<le> 0)"
    by (simp_all only: codeUnitCompare_Cons_le)
  then have "(of_char x :: nat) < of_char z \<or> ((of_char x :: nat) = of_char z \<and> codeUnitCompare xs zs \<le> 0)"
    using Cons.IH [of ys zs] by auto
  then show ?case unfolding c by (simp only: codeUnitCompare_Cons_le)
qed

lemma consistent_codeUnitCompare: "consistentComparator codeUnitCompare"
  unfolding consistentComparator_def
  using codeUnitCompare_total codeUnitCompare_trans by blast

lemma codeUnitCompare_le_iff:
  "codeUnitCompare a b \<le> 0 \<longleftrightarrow> a = b \<or> (a, b) \<in> lexLess"
  unfolding lexLess_def
proof (induction a b rule: codeUnitCompare.induct)
  case 1
  show ?case by simp
next
  case (2 y ys)
  show ?case by simp
next
  case (3 x xs)
  show ?case by simp
next
  case (4 x xs y ys)
  show ?case
  proof (cases "(of_char x :: nat) < of_char y")
    case True
    then show ?thesis by auto
  next
    case False
    note nlt = this
    show ?thesis
    proof (cases "(of_char y :: nat) < of_char x")
      case True
      with nlt show ?thesis by auto
    next
      case False
      with nlt have "x = y" by (metis linorder_neqE_nat of_char_eq_iff)
      with nlt False "4.IH" show ?thesis by simp
    qed
  qed
qed

lemma consistent_foldCaseCompare: "consistentComparator foldCaseCompare"
  using consistent_codeUnitCompare
  unfolding consistentComparator_def foldCaseCompare_def by blast

lemma filenames_truncatePatches:
  "mset (map filename (truncatePatches localeCompare files maxDiffSize)) =
     mset (map filename files)"
proof -
  let ?sorted = "sortBy (\<lambda>a b. patchLength b - patchLength a) files"
  let ?result = "truncateLoop maxDiffSize ?sorted 0 []"
  have "mset (map filename (truncatePatches localeCompare files maxDiffSize)) =
          image_mset filename (mset ?result)"
    by (simp add: truncatePatches_def Let_def mset_sortBy)
  also have "\<dots> = mset (map filename ?result)" by simp
  also have "\<dots> = mset (map filename ?sorted)" by (simp only: filenames_truncateLoop) simp
  also have "\<dots> = image_mset filename (mset ?sorted)" by simp
  also have "\<dots> = mset (map filename files)" by (simp add: mset_sortBy)
  finally show ?thesis .
qed

lemma sorted_truncatePatches:
  assumes "consistentComparator localeCompare"
  shows "sorted_wrt (\<lambda>a b. localeCompare (filename a) (filename b) \<le> 0)
           (truncatePatches localeCompare files maxDiffSize)"
proof -
  from assms have "consistentComparator (\<lambda>a b. localeCompare (filename a) (filename b))"
    by (rule consistent_on_filename)
  then show ?thesis unfolding truncatePatches_def Let_def by (rule sorted_sortBy)
qed

lemma lexOrdered_codeUnitCompare:
  "lexOrdered files \<longleftrightarrow>
     sorted_wrt (\<lambda>a b. codeUnitCompare (filename a) (filename b) \<le> 0) files"
  by (simp add: lexOrdered_def codeUnitCompare_le_iff)

text \<open>
  Claim C8, as the code has it. The reduction keeps exactly the file names of its input,
  each as often as the input has it. While the total patch length is within the budget the
  files are returned as they were fetched, in the order of the input. Above the budget they
  go through \<open>truncatePatches\<close>, whose output is sorted by file name with
  \<open>localeCompare\<close> whatever the order of the input: every file compares at most equal
  to each later one, for a \<open>localeCompare\<close> that compares consistently. Where the
  comparison is the one by code units, this is the lexicographic order.
\<close>

theorem reduceDiff_same_files_order:
  "mset (map filename (reduceDiff localeCompare files maxDiffSize)) = mset (map filename files)
   \<and> (totalPatchLength files \<le> maxDiffSize \<longrightarrow>
        reduceDiff localeCompare files maxDiffSize = files)
   \<and> (maxDiffSize < totalPatchLength files \<longrightarrow>
        reduceDiff localeCompare files maxDiffSize =
          truncatePatches localeCompare files maxDiffSize)
   \<and> mset (map filename (truncatePatches localeCompare files maxDiffSize)) =
       mset (map filename files)
   \<and> (consistentComparator localeCompare \<longrightarrow>
        sorted_wrt (\<lambda>a b. localeCompare (filename a) (filename b) \<le> 0)
          (truncatePatches localeCompare files maxDiffSize))
   \<and> lexOrdered (truncatePatches codeUnitCompare files maxDiffSize)"
proof (intro conjI impI)
  show "mset (map filename (reduceDiff localeCompare files maxDiffSize)) =
      mset (map filename files)"
    using filenames_truncatePatches [of localeCompare files maxDiffSize]
    by (simp add: reduceDiff_def Let_def)
next
  assume "totalPatchLength files \<le> maxDiffSize"
  then show "reduceDiff localeCompare files maxDiffSize = files"
    by (simp add: reduceDiff_def Let_def)
next
  assume "maxDiffSize < totalPatchLength files"
  then show "reduceDiff localeCompare files maxDiffSize =
      truncatePatches localeCompare files maxDiffSize"
    by (simp add: reduceDiff_def Let_def)
next
  show "mset (map filename (truncatePatches localeCompare files maxDiffSize)) =
      mset (map filename files)"
    by (rule filenames_truncatePatches)
next
  assume "consistentComparator localeCompare"
  then show "sorted_wrt (\<lambda>a b. localeCompare (filename a) (filename b) \<le> 0)
      (truncatePatches localeCompare files maxDiffSize)"
    by (rule sorted_truncatePatches)
next
  show "lexOrdered (truncatePatches codeUnitCompare files maxDiffSize)"
    unfolding lexOrdered_codeUnitCompare
    using consistent_codeUnitCompare by (rule sorted_truncatePatches)
qed

theorem reduceDiff_same_files_order_witness:
  "reduceDiff codeUnitCompare
     [\<lparr> filename = ''b.ts'', status = Modified, additions = 2, deletions = 1, patch = Some ''+x-y'' \<rparr>,
      \<lparr> filename = ''a.ts'', status = Added, additions = 1, deletions = 0, patch = Some ''+new line'' \<rparr>] 13
     = [\<lparr> filename = ''b.ts'', status = Modified, additions = 2, deletions = 1, patch = Some ''+x-y'' \<rparr>,
        \<lparr> filename = ''a.ts'', status = Added, additions = 1, deletions = 0, patch = Some ''+new line'' \<rparr>]
   \<and> map filename (reduceDiff codeUnitCompare
     [\<lparr> filename = ''b.ts'', status = Modified, additions = 2, deletions = 1, patch = Some ''+x-y'' \<rparr>,
      \<lparr> filename = ''a.ts'', status = Added, additions = 1, deletions = 0, patch = Some ''+new line'' \<rparr>] 6)
     = [''a.ts'', ''b.ts'']
   \<and> consistentComparator foldCaseCompare
   \<and> map filename (truncatePatches foldCaseCompare
     [\<lparr> filename = ''B.ts'', status = Modified, additions = 2, deletions = 1, patch = Some ''+x-y'' \<rparr>,
      \<lparr> filename = ''a.ts'', status = Added, additions = 1, deletions = 0, patch = Some ''+new line'' \<rparr>] 6)
     = [''a.ts'', ''B.ts'']
   \<and> sorted_wrt (\<lambda>a b. foldCaseCompare (filename a) (filename b) \<le> 0)
       (truncatePatches foldCaseCompare
     [\<lparr> filename = ''B.ts'', status = Modified, additions = 2, deletions = 1, patch = Some ''+x-y'' \<rparr>,
      \<lparr> filename = ''a.ts'', status = Added, additions = 1, deletions = 0, patch = Some ''+new line'' \<rparr>] 6)"
proof -
  let ?fs = "[\<lparr> filename = ''b.ts'', status = Modified, additions = 2, deletions = 1, patch = Some ''+x-y'' \<rparr>,
      \<lparr> filename = ''a.ts'', status = Added, additions = 1, deletions = 0, patch = Some ''+new line'' \<rparr>]"
  let ?gs = "[\<lparr> filename = ''B.ts'', status = Modified, additions = 2, deletions = 1, patch = Some ''+x-y'' \<rparr>,
      \<lparr> filename = ''a.ts'', status = Added, additions = 1, deletions = 0, patch = Some ''+new line'' \<rparr>]"
  have h1: "totalPatchLength ?fs \<le> 13" by code_simp
  have h2: "6 < totalPatchLength ?fs" by code_simp
  have v2: "map filename (truncatePatches codeUnitCompare ?fs 6) = [''a.ts'', ''b.ts'']"
    by code_simp
  have v3: "map filename (truncatePatches foldCaseCompare ?gs 6) = [''a.ts'', ''B.ts'']"
    by code_simp
  from reduceDiff_same_files_order [of codeUnitCompare ?fs 13] h1
  have "reduceDiff codeUnitCompare ?fs 13 = ?fs" by blast
  moreover from reduceDiff_same_files_order [of codeUnitCompare ?fs 6] h2 v2
  have "map filename (reduceDiff codeUnitCompare ?fs 6) = [''a.ts'', ''b.ts'']" by simp
  moreover from reduceDiff_same_files_order [of foldCaseCompare ?gs 6] consistent_foldCaseCompare
  have "sorted_wrt (\<lambda>a b. foldCaseCompare (filename a) (filename b) \<le> 0)
       (truncatePatches foldCaseCompare ?gs 6)" by blast
  ultimately show ?thesis using consistent_foldCaseCompare v3 by blast
qed

text \<open>
  Within the budget the files come back in the order of the input, which need not be an
  order of the file names: the two files of the repository's own test, with the budget of
  that test, stay as fetched, \<open>src/index.ts\<close> before \<open>package-lock.json\<close>.
\<close>

theorem reduceDiff_within_budget_unsorted_counterexample:
  "map filename (reduceDiff codeUnitCompare
     [\<lparr> filename = ''src/index.ts'', status = Modified, additions = 10, deletions = 5,
        patch = Some ''+new line\<newline>-old line'' \<rparr>,
      \<lparr> filename = ''package-lock.json'', status = Modified, additions = 100, deletions = 100,
        patch = Some ''large patch content'' \<rparr>] 100000)
     = [''src/index.ts'', ''package-lock.json'']
   \<and> (''package-lock.json'', ''src/index.ts'') \<in> lexLess
   \<and> \<not> lexOrdered (reduceDiff codeUnitCompare
     [\<lparr> filename = ''src/index.ts'', status = Modified, additions = 10, deletions = 5,
        patch = Some ''+new line\<newline>-old line'' \<rparr>,
      \<lparr> filename = ''package-lock.json'', status = Modified, additions = 100, deletions = 100,
        patch = Some ''large patch content'' \<rparr>] 100000)"
proof -
  let ?fs = "[\<lparr> filename = ''src/index.ts'', status = Modified, additions = 10, deletions = 5,
        patch = Some ''+new line\<newline>-old line'' \<rparr>,
      \<lparr> filename = ''package-lock.json'', status = Modified, additions = 100, deletions = 100,
        patch = Some ''large patch content'' \<rparr>]"
  have r: "reduceDiff codeUnitCompare ?fs 100000 = ?fs" by code_simp
  have c: "codeUnitCompare ''package-lock.json'' ''src/index.ts'' \<le> 0"
    "\<not> codeUnitCompare ''src/index.ts'' ''package-lock.json'' \<le> 0"
    by code_simp+
  from c(1) have "(''package-lock.json'', ''src/index.ts'') \<in> lexLess"
    unfolding codeUnitCompare_le_iff by simp
  moreover from c(2) have "\<not> lexOrdered ?fs"
    unfolding lexOrdered_codeUnitCompare by (simp del: codeUnitCompare.simps)
  ultimately show ?thesis by (simp only: r) simp
qed

section \<open>Diff reducer: the budget\<close>

text \<open>
  With a budget that is not negative, the patches returned exceed it by at most the length
  of the truncation sentinel.
\<close>

lemma totalPatchLength_append:
  "totalPatchLength (a @ b) = totalPatchLength a + totalPatchLength b"
  by (simp add: totalPatchLength_def)

lemma totalPatchLength_sortBy: "totalPatchLength (sortBy cmp files) = totalPatchLength files"
proof -
  have "sum_list (map patchLength (sortBy cmp files)) =
        sum_mset (image_mset patchLength (mset (sortBy cmp files)))"
    by (metis mset_map sum_mset_sum_list)
  also have "\<dots> = sum_mset (image_mset patchLength (mset files))"
    by (simp only: mset_sortBy)
  also have "\<dots> = sum_list (map patchLength files)"
    by (metis mset_map sum_mset_sum_list)
  finally show ?thesis by (simp only: totalPatchLength_def)
qed

lemma patchLength_nonneg: "0 \<le> patchLength file"
  by (simp add: patchLength_def split: option.splits)

lemma truncateLoop_budget:
  assumes "currentSize \<le> maxDiffSize"
    and "totalPatchLength result \<le> currentSize \<or>
         (currentSize = maxDiffSize \<and> totalPatchLength result \<le> maxDiffSize + 16)"
  shows "totalPatchLength (truncateLoop maxDiffSize files currentSize result) \<le> maxDiffSize + 16"
  using assms
proof (induction files arbitrary: currentSize result)
  case Nil
  then show ?case by auto
next
  case (Cons f rest)
  consider (full) "currentSize + patchLength f \<le> maxDiffSize"
    | (cut) "\<not> currentSize + patchLength f \<le> maxDiffSize" "currentSize < maxDiffSize"
    | (drop) "\<not> currentSize + patchLength f \<le> maxDiffSize" "\<not> currentSize < maxDiffSize"
    by blast
  then show ?case
  proof cases
    case full
    have "totalPatchLength (truncateLoop maxDiffSize rest (currentSize + patchLength f)
            (result @ [f])) \<le> maxDiffSize + 16"
    proof (rule Cons.IH [OF full])
      show "totalPatchLength (result @ [f]) \<le> currentSize + patchLength f \<or>
        currentSize + patchLength f = maxDiffSize \<and>
        totalPatchLength (result @ [f]) \<le> maxDiffSize + 16"
        using Cons.prems(2) full patchLength_nonneg [of f]
        by (auto simp: totalPatchLength_append totalPatchLength_def)
    qed
    with full show ?thesis by (simp add: Let_def)
  next
    case cut
    then obtain p where p: "patch f = Some p" "int (length p) > maxDiffSize - currentSize"
      by (cases "patch f") (auto simp: patchLength_def)
    let ?t = "substring p 0 (nat (maxDiffSize - currentSize))"
    have t: "int (length ?t) = maxDiffSize - currentSize" "?t \<noteq> []"
      using p(2) cut(2) by (auto simp: substring_def Let_def min_def max_def)
    let ?f = "f\<lparr> patch := Some (?t @ TRUNCATED) \<rparr>"
    have "patchLength ?f = maxDiffSize - currentSize + 16"
      using t(1) by (simp add: patchLength_def TRUNCATED_def)
    moreover have "totalPatchLength result \<le> currentSize" using Cons.prems(2) cut(2) by auto
    ultimately have "totalPatchLength (result @ [?f]) \<le> maxDiffSize + 16"
      by (simp add: totalPatchLength_append totalPatchLength_def)
    then have "totalPatchLength (truncateLoop maxDiffSize rest maxDiffSize (result @ [?f]))
        \<le> maxDiffSize + 16"
      by (intro Cons.IH) simp_all
    with cut p(1) t(2) show ?thesis by (simp add: Let_def)
  next
    case drop
    with Cons.prems(1) have eq: "currentSize = maxDiffSize" by simp
    have "totalPatchLength (result @ [f\<lparr> patch := None \<rparr>]) = totalPatchLength result"
      by (simp add: totalPatchLength_append totalPatchLength_def patchLength_def)
    with Cons.prems eq
    have "totalPatchLength (truncateLoop maxDiffSize rest currentSize
            (result @ [f\<lparr> patch := None \<rparr>])) \<le> maxDiffSize + 16"
      by (intro Cons.IH) auto
    with drop show ?thesis by (simp add: Let_def)
  qed
qed

lemma truncatePatches_budget_plus_sentinel:
  assumes "0 \<le> maxDiffSize"
  shows "totalPatchLength (truncatePatches localeCompare files maxDiffSize) \<le>
           maxDiffSize + int (length TRUNCATED)"
proof -
  have "totalPatchLength (truncateLoop maxDiffSize
          (sortBy (\<lambda>a b. patchLength b - patchLength a) files) 0 []) \<le> maxDiffSize + 16"
    using assms by (intro truncateLoop_budget) (simp_all add: totalPatchLength_def)
  then show ?thesis
    by (simp add: truncatePatches_def Let_def totalPatchLength_sortBy TRUNCATED_def)
qed

text \<open>
  Claim C3. The sum of the patch lengths that \<open>truncatePatches\<close> returns is meant to
  stay within the budget, the truncated patch with its sentinel included. The code cuts the
  patch to the remaining space and then appends the sentinel of 16 code units: one file
  with a patch of 20 code units and a budget of 10 comes back with a patch of 26 code
  units.
\<close>

theorem truncatePatches_sentinel_exceeds_budget:
  "truncatePatches codeUnitCompare
     [\<lparr> filename = ''a.ts'', status = Modified, additions = 1, deletions = 0,
        patch = Some ''0123456789abcdefghij'' \<rparr>] 10
   = [\<lparr> filename = ''a.ts'', status = Modified, additions = 1, deletions = 0,
        patch = Some ''0123456789\<newline>... (truncated)'' \<rparr>]
   \<and> totalPatchLength (truncatePatches codeUnitCompare
     [\<lparr> filename = ''a.ts'', status = Modified, additions = 1, deletions = 0,
        patch = Some ''0123456789abcdefghij'' \<rparr>] 10) = 26"
  by (simp add: truncatePatches_def sortBy_def patchLength_def totalPatchLength_def
      substring_def TRUNCATED_def)

section \<open>Strings: trimming and occurrences\<close>

subsection \<open>White space and trimming\<close>

lemma nonWhite_append: "nonWhite (a @ b) = nonWhite a @ nonWhite b"
  by (simp add: nonWhite_def)

lemma nonWhite_rev: "nonWhite (rev s) = rev (nonWhite s)"
  by (simp add: nonWhite_def rev_filter)

lemma nonWhite_dropWhile: "nonWhite (dropWhile isWhiteSpace s) = nonWhite s"
  by (induction s) (simp_all add: nonWhite_def)

lemma nonWhite_trimStart: "nonWhite (trimStart s) = nonWhite s"
  by (simp add: trimStart_def nonWhite_dropWhile)

lemma nonWhite_trimEnd: "nonWhite (trimEnd s) = nonWhite s"
  by (simp add: trimEnd_def nonWhite_rev nonWhite_dropWhile)

lemma nonWhite_trim: "nonWhite (trim s) = nonWhite s"
  by (simp add: trim_def nonWhite_trimStart nonWhite_trimEnd)

lemma nonWhite_Nil_iff: "nonWhite s = [] \<longleftrightarrow> (\<forall>c \<in> set s. isWhiteSpace c)"
  by (auto simp: nonWhite_def filter_empty_conv)

lemma trimEnd_Nil_iff: "trimEnd s = [] \<longleftrightarrow> nonWhite s = []"
  by (simp add: trimEnd_def nonWhite_Nil_iff dropWhile_eq_Nil_conv)

lemma trim_Nil_iff: "trim s = [] \<longleftrightarrow> nonWhite s = []"
  by (simp add: trim_def trimEnd_Nil_iff nonWhite_trimStart)

lemma trimStart_id: "s = [] \<or> \<not> isWhiteSpace (hd s) \<Longrightarrow> trimStart s = s"
  by (cases s) (auto simp: trimStart_def)

lemma trimEnd_id: "s = [] \<or> \<not> isWhiteSpace (last s) \<Longrightarrow> trimEnd s = s"
  by (cases s rule: rev_cases) (auto simp: trimEnd_def)

lemma trimStart_hd: "trimStart s \<noteq> [] \<Longrightarrow> \<not> isWhiteSpace (hd (trimStart s))"
  unfolding trimStart_def by (rule hd_dropWhile)

lemma trimEnd_last: "trimEnd s \<noteq> [] \<Longrightarrow> \<not> isWhiteSpace (last (trimEnd s))"
  unfolding trimEnd_def using hd_dropWhile [of isWhiteSpace "rev s"]
  by (simp add: last_rev)

lemma trimEnd_decomp: "\<exists>r. s = trimEnd s @ r \<and> nonWhite r = []"
proof -
  have "rev s = takeWhile isWhiteSpace (rev s) @ dropWhile isWhiteSpace (rev s)" by simp
  then have "s = rev (dropWhile isWhiteSpace (rev s)) @ rev (takeWhile isWhiteSpace (rev s))"
    by (metis rev_append rev_rev_ident)
  moreover have "nonWhite (rev (takeWhile isWhiteSpace (rev s))) = []"
    by (auto simp: nonWhite_Nil_iff dest: set_takeWhileD)
  ultimately show ?thesis unfolding trimEnd_def by blast
qed

lemma trimStart_decomp: "\<exists>l. s = l @ trimStart s \<and> nonWhite l = []"
proof -
  have "s = takeWhile isWhiteSpace s @ dropWhile isWhiteSpace s" by simp
  moreover have "nonWhite (takeWhile isWhiteSpace s) = []"
    by (auto simp: nonWhite_Nil_iff dest: set_takeWhileD)
  ultimately show ?thesis unfolding trimStart_def by blast
qed

lemma trimEnd_hd: "trimEnd s \<noteq> [] \<Longrightarrow> hd (trimEnd s) = hd s"
  using trimEnd_decomp [of s] by (metis hd_append2)

lemma trim_hd: "trim s \<noteq> [] \<Longrightarrow> \<not> isWhiteSpace (hd (trim s))"
proof -
  assume ne: "trim s \<noteq> []"
  then have "trimStart s \<noteq> []" by (auto simp: trim_def trimEnd_def)
  then have "\<not> isWhiteSpace (hd (trimStart s))" by (rule trimStart_hd)
  with ne show ?thesis by (simp add: trim_def trimEnd_hd)
qed

lemma trim_last: "trim s \<noteq> [] \<Longrightarrow> \<not> isWhiteSpace (last (trim s))"
  unfolding trim_def by (rule trimEnd_last)

lemma trim_id: "s = [] \<or> (\<not> isWhiteSpace (hd s) \<and> \<not> isWhiteSpace (last s)) \<Longrightarrow> trim s = s"
  by (auto simp: trim_def trimStart_id trimEnd_id)

lemma trim_trim: "trim (trim s) = trim s"
  by (rule trim_id) (use trim_hd trim_last in blast)

lemma trimEnd_pad:
  assumes "nonWhite r = []"
  shows "trimEnd (s @ r) = trimEnd s"
proof -
  have "dropWhile isWhiteSpace (rev r @ rev s) = dropWhile isWhiteSpace (rev s)"
    by (rule dropWhile_append2) (use assms in \<open>simp add: nonWhite_Nil_iff\<close>)
  then show ?thesis by (simp add: trimEnd_def)
qed

lemma trim_pad:
  assumes "nonWhite l = []" and "nonWhite r = []"
  shows "trim (l @ s @ r) = trim s"
proof -
  have l: "trimStart (l @ s @ r) = trimStart (s @ r)"
    using assms(1) by (auto simp: trimStart_def nonWhite_Nil_iff)
  show ?thesis
  proof (cases "nonWhite s = []")
    case True
    then have "nonWhite (l @ s @ r) = []" using assms by (simp add: nonWhite_append)
    with True have "trim (l @ s @ r) = []" "trim s = []" by (simp_all only: trim_Nil_iff)
    then show ?thesis by simp
  next
    case False
    then obtain c where "c \<in> set s" "\<not> isWhiteSpace c" by (auto simp: nonWhite_Nil_iff)
    then have "trimStart (s @ r) = trimStart s @ r"
      unfolding trimStart_def by (rule dropWhile_append1)
    with l assms(2) show ?thesis by (simp add: trim_def trimEnd_pad)
  qed
qed

lemma trim_blank_lines: "trim (''\<newline>\<newline>'' @ s @ ''\<newline>\<newline>'') = trim s"
  by (rule trim_pad) (simp_all add: nonWhite_def isWhiteSpace_def)

subsection \<open>Occurrences\<close>

lemma firstOccurrence_iff:
  "firstOccurrence s p k \<longleftrightarrow> occursAt s p k \<and> (\<forall>j<k. \<not> occursAt s p j)"
  by (auto simp: firstOccurrence_def list_all_iff)

lemma occursAt_Cons_Suc: "occursAt (c # cs) p (Suc k) = occursAt cs p k"
  by (simp add: occursAt_def)

lemma occursAt_0: "occursAt s p 0 = prefix p s"
  by (simp add: occursAt_def)

lemma occursAt_Nil: "occursAt [] p k \<longleftrightarrow> k = 0 \<and> p = []"
  by (auto simp: occursAt_def)

lemma firstOccurrence_Cons_Suc:
  "firstOccurrence (c # cs) p (Suc k) \<longleftrightarrow> \<not> prefix p (c # cs) \<and> firstOccurrence cs p k"
proof -
  have "(\<forall>j<Suc k. \<not> occursAt (c # cs) p j) \<longleftrightarrow>
        \<not> occursAt (c # cs) p 0 \<and> (\<forall>j<k. \<not> occursAt (c # cs) p (Suc j))"
    by (metis less_Suc_eq_0_disj)
  then show ?thesis
    by (auto simp: firstOccurrence_iff occursAt_Cons_Suc occursAt_0)
qed

lemma firstOccurrence_0: "firstOccurrence s p 0 = prefix p s"
  by (simp add: firstOccurrence_iff occursAt_0)

lemma indexOf_Some_iff: "indexOf s p = Some k \<longleftrightarrow> firstOccurrence s p k"
proof (induction s arbitrary: k)
  case Nil
  show ?case by (auto simp: firstOccurrence_iff occursAt_Nil)
next
  case (Cons c cs)
  show ?case
  proof (cases k)
    case 0
    then show ?thesis by (auto simp: firstOccurrence_0)
  next
    case (Suc k')
    then show ?thesis using Cons.IH [of k']
      by (auto simp: firstOccurrence_Cons_Suc)
  qed
qed

lemma occursAt_sublist: "(\<exists>k. occursAt s p k) \<longleftrightarrow> sublist p s"
proof
  assume "\<exists>k. occursAt s p k"
  then obtain k where "k \<le> length s" "prefix p (drop k s)" unfolding occursAt_def by blast
  then obtain ss where "drop k s = p @ ss" unfolding prefix_def by blast
  then have "s = take k s @ p @ ss" by (metis append_take_drop_id)
  then show "sublist p s" unfolding sublist_def by blast
next
  assume "sublist p s"
  then obtain ps ss where "s = ps @ p @ ss" unfolding sublist_def by blast
  then have "occursAt s p (length ps)" by (simp add: occursAt_def)
  then show "\<exists>k. occursAt s p k" ..
qed

lemma firstOccurrence_ex: "(\<exists>k. firstOccurrence s p k) \<longleftrightarrow> sublist p s"
proof
  assume "\<exists>k. firstOccurrence s p k"
  then show "sublist p s" using occursAt_sublist firstOccurrence_iff by blast
next
  assume "sublist p s"
  then obtain k where k: "occursAt s p k" using occursAt_sublist by blast
  define m where "m = (LEAST k. occursAt s p k)"
  have "occursAt s p m" unfolding m_def using k by (rule LeastI)
  moreover have "\<forall>j<m. \<not> occursAt s p j" unfolding m_def using not_less_Least by blast
  ultimately show "\<exists>k. firstOccurrence s p k" unfolding firstOccurrence_iff by blast
qed

lemma includesStr_sublist: "includesStr s p \<longleftrightarrow> sublist p s"
proof -
  have "includesStr s p \<longleftrightarrow> (\<exists>k. indexOf s p = Some k)" by (simp add: includesStr_def)
  then show ?thesis by (simp add: indexOf_Some_iff firstOccurrence_ex)
qed

lemma firstOccurrence_unique:
  "firstOccurrence s p i \<Longrightarrow> firstOccurrence s p j \<Longrightarrow> i = j"
  by (metis indexOf_Some_iff option.inject)

lemma sublist_nonWhite_length: "sublist a b \<Longrightarrow> length (nonWhite a) \<le> length (nonWhite b)"
  by (auto simp: sublist_def nonWhite_append)

section \<open>Marker codec: the derived markers\<close>

subsection \<open>The derived markers\<close>

lemma markerStart_getMarkers: "markerStart (getMarkers marker) = marker"
  by (simp add: getMarkers_def)

lemma markerEnd_getMarkers:
  "markerEnd (getMarkers marker) = trim (replaceClosing marker) @ ''-end -->''"
  by (simp add: getMarkers_def END_MARKER_SUFFIX_def)

lemma nonWhite_replaceClosing:
  "nonWhite marker =
     nonWhite (replaceClosing marker) @ (if suffix ''-->'' marker then ''-->'' else [])"
proof (cases "suffix ''-->'' marker")
  case True
  then have "marker = take (length marker - 3) marker @ ''-->''"
    by (auto simp: suffix_def)
  then have "nonWhite marker = nonWhite (take (length marker - 3) marker) @ nonWhite ''-->''"
    by (metis nonWhite_append)
  with True show ?thesis
    by (simp add: replaceClosing_def nonWhite_trimEnd) (simp add: nonWhite_def isWhiteSpace_def)
next
  case False
  then show ?thesis by (simp add: replaceClosing_def)
qed

lemma nonWhite_markerEnd:
  "nonWhite (markerEnd (getMarkers marker)) = nonWhite (replaceClosing marker) @ ''-end-->''"
  by (simp add: markerEnd_getMarkers nonWhite_append nonWhite_trim)
     (simp add: nonWhite_def isWhiteSpace_def)

lemma markerEnd_more_nonWhite:
  "length (nonWhite marker) < length (nonWhite (markerEnd (getMarkers marker)))"
  by (subst nonWhite_replaceClosing) (simp add: nonWhite_markerEnd)

lemma markerEnd_not_in_marker: "\<not> sublist (markerEnd (getMarkers marker)) marker"
  using sublist_nonWhite_length [of "markerEnd (getMarkers marker)" marker]
    markerEnd_more_nonWhite [of marker] by auto

lemma markerEnd_nonWhite: "nonWhite (markerEnd (getMarkers marker)) \<noteq> []"
  by (simp add: nonWhite_markerEnd)

lemma markerEnd_not_Nil: "markerEnd (getMarkers marker) \<noteq> []"
  by (simp add: markerEnd_getMarkers)

lemma contains_markerEnd_not_blank:
  assumes "sublist (markerEnd (getMarkers marker)) s"
  shows "trim s \<noteq> []"
proof -
  have "0 < length (nonWhite (markerEnd (getMarkers marker)))"
    using markerEnd_nonWhite by simp
  with sublist_nonWhite_length [OF assms] have "nonWhite s \<noteq> []" by auto
  then show ?thesis by (simp add: trim_Nil_iff)
qed

subsection \<open>Markers in the delimiter format\<close>

lemma trim_trimEnd: "trim (trimEnd s) = trim s"
proof -
  obtain r where r: "s = trimEnd s @ r" "nonWhite r = []" using trimEnd_decomp by blast
  have "trim ([] @ trimEnd s @ r) = trim (trimEnd s)"
    by (rule trim_pad) (simp add: nonWhite_def, rule r(2))
  with r(1) show ?thesis by simp
qed

lemma delimiterFormat_decomp:
  assumes "delimiterFormat marker"
  obtains base r where "marker = base @ r @ ''-->''" and "nonWhite r = []"
    and "base \<noteq> []" and "hd base = CHR ''<''"
    and "markerEnd (getMarkers marker) = base @ ''-end -->''"
proof -
  define n where "n = take (length marker - 3) marker"
  from assms have suf: "suffix ''-->'' marker" and pre: "prefix ''<!--'' marker"
    by (simp_all add: delimiterFormat_def)
  from suf have marker: "marker = n @ ''-->''" by (auto simp: suffix_def n_def)
  from pre obtain t where t: "marker = ''<!--'' @ t" by (auto simp: prefix_def)
  with marker have "length n \<ge> 1" by (cases n) auto
  with t have n: "n \<noteq> []" "hd n = CHR ''<''" by (auto simp: n_def hd_take)
  then have "trimStart n = n" by (intro trimStart_id) (simp add: isWhiteSpace_def)
  then have tn: "trim n = trimEnd n" by (simp add: trim_def)
  obtain r where r: "n = trimEnd n @ r" "nonWhite r = []" using trimEnd_decomp by blast
  have "nonWhite n \<noteq> []" using n by (cases n) (auto simp: nonWhite_def isWhiteSpace_def)
  then have ne: "trimEnd n \<noteq> []" by (simp add: trimEnd_Nil_iff)
  then have hd: "hd (trimEnd n) = CHR ''<''" using n by (simp add: trimEnd_hd)
  have "replaceClosing marker = trimEnd n" using suf by (simp add: replaceClosing_def n_def)
  then have "markerEnd (getMarkers marker) = trimEnd n @ ''-end -->''"
    by (simp add: markerEnd_getMarkers trim_trimEnd tn)
  moreover from marker r have "marker = trimEnd n @ r @ ''-->''" by simp
  ultimately show ?thesis using that r(2) ne hd by blast
qed

lemma blank_not_prefix_of_end:
  assumes "nonWhite r = []"
  shows "\<not> prefix (r @ ''-->'') ''-end -->''"
proof (cases r)
  case Nil
  then show ?thesis by simp
next
  case (Cons c cs)
  with assms have "isWhiteSpace c" by (simp add: nonWhite_Nil_iff)
  then have "c \<noteq> CHR ''-''" by (auto simp: isWhiteSpace_def)
  with Cons show ?thesis by simp
qed

lemma delimiterFormat_start_not_prefix:
  assumes "delimiterFormat marker"
  shows "\<not> prefix marker (markerEnd (getMarkers marker))"
proof -
  from assms obtain base r where d: "marker = base @ r @ ''-->''" "nonWhite r = []"
    "markerEnd (getMarkers marker) = base @ ''-end -->''"
    by (rule delimiterFormat_decomp)
  have "\<not> prefix (base @ r @ ''-->'') (base @ ''-end -->'')"
    using blank_not_prefix_of_end [OF d(2)] by simp
  with d show ?thesis by simp
qed

lemma delimiterFormat_start_not_suffix:
  assumes "delimiterFormat marker"
  shows "\<not> suffix marker (markerEnd (getMarkers marker))"
proof
  assume suf: "suffix marker (markerEnd (getMarkers marker))"
  from assms obtain base r where d: "marker = base @ r @ ''-->''" "nonWhite r = []"
    "base \<noteq> []" "hd base = CHR ''<''"
    "markerEnd (getMarkers marker) = base @ ''-end -->''"
    by (rule delimiterFormat_decomp)
  from suf obtain u where "markerEnd (getMarkers marker) = u @ marker"
    unfolding suffix_def by blast
  then have u: "base @ ''-end -->'' = u @ base @ r @ ''-->''"
    using d(1) d(5) by metis
  let ?F = "filter (\<lambda>c. c = CHR ''<'')"
  have "\<not> isWhiteSpace CHR ''<''" by (simp add: isWhiteSpace_def)
  with d(2) have "CHR ''<'' \<notin> set r" by (auto simp: nonWhite_Nil_iff)
  then have r: "?F r = []" by (auto simp: filter_empty_conv)
  have "length (?F (base @ ''-end -->'')) = length (?F (u @ base @ r @ ''-->''))"
    by (simp only: u)
  then have "length (?F base) = length (?F u) + length (?F base)"
    using r by simp
  then have Fu: "?F u = []" by simp
  have "u \<noteq> []"
  proof
    assume "u = []"
    have "base @ ''-end -->'' = base @ r @ ''-->''" using u unfolding \<open>u = []\<close> by simp
    then have "''-end -->'' = r @ ''-->''" by (simp only: same_append_eq)
    then have "nonWhite ''-end -->'' = nonWhite r @ nonWhite ''-->''" by (metis nonWhite_append)
    with d(2) show False by (simp add: nonWhite_def isWhiteSpace_def)
  qed
  then have "hd u = hd (u @ base @ r @ ''-->'')" by simp
  also have "\<dots> = hd (base @ ''-end -->'')" by (simp only: u)
  also have "\<dots> = hd base" using d(3) by simp
  finally have "CHR ''<'' \<in> set u" using d(4) \<open>u \<noteq> []\<close> by (metis hd_in_set)
  with Fu show False by (auto simp: filter_empty_conv)
qed

text \<open>
  Claim C9, as the code has it. \<open>getMarkers\<close> accepts every base marker and returns it
  unchanged as the start marker. The end marker it derives never equals the start marker
  and is never a prefix or a suffix of it. For a base marker in the delimiter format
  (opened by \<open><!--\<close>, closed by \<open>-->\<close>) the start marker is neither a prefix nor a
  suffix of the end marker either.
\<close>

theorem markers_do_not_collide:
  "markerStart (getMarkers marker) = marker
   \<and> markerEnd (getMarkers marker) \<noteq> markerStart (getMarkers marker)
   \<and> \<not> prefix (markerEnd (getMarkers marker)) (markerStart (getMarkers marker))
   \<and> \<not> suffix (markerEnd (getMarkers marker)) (markerStart (getMarkers marker))
   \<and> (delimiterFormat marker \<longrightarrow>
        \<not> prefix (markerStart (getMarkers marker)) (markerEnd (getMarkers marker))
        \<and> \<not> suffix (markerStart (getMarkers marker)) (markerEnd (getMarkers marker)))"
proof -
  have ns: "\<not> sublist (markerEnd (getMarkers marker)) (markerStart (getMarkers marker))"
    by (simp add: markerStart_getMarkers markerEnd_not_in_marker)
  then have "markerEnd (getMarkers marker) \<noteq> markerStart (getMarkers marker)"
    by auto
  moreover from ns
  have "\<not> prefix (markerEnd (getMarkers marker)) (markerStart (getMarkers marker))"
    using prefix_imp_sublist by blast
  moreover from ns
  have "\<not> suffix (markerEnd (getMarkers marker)) (markerStart (getMarkers marker))"
    using suffix_imp_sublist by blast
  ultimately show ?thesis
    using delimiterFormat_start_not_prefix delimiterFormat_start_not_suffix
    by (simp add: markerStart_getMarkers)
qed

theorem markers_do_not_collide_witness:
  "delimiterFormat DEFAULT_MARKER
   \<and> getMarkers DEFAULT_MARKER =
       \<lparr> markerStart = ''<!-- gemini-pr-description -->'',
         markerEnd = ''<!-- gemini-pr-description-end -->'' \<rparr>
   \<and> \<not> prefix (markerStart (getMarkers DEFAULT_MARKER)) (markerEnd (getMarkers DEFAULT_MARKER))
   \<and> \<not> suffix (markerStart (getMarkers DEFAULT_MARKER)) (markerEnd (getMarkers DEFAULT_MARKER))"
proof -
  have d: "delimiterFormat DEFAULT_MARKER"
    by (simp add: delimiterFormat_def DEFAULT_MARKER_def suffix_def)
  have m: "getMarkers DEFAULT_MARKER =
       \<lparr> markerStart = ''<!-- gemini-pr-description -->'',
         markerEnd = ''<!-- gemini-pr-description-end -->'' \<rparr>"
    by (simp add: getMarkers_def DEFAULT_MARKER_def END_MARKER_SUFFIX_def replaceClosing_def
        suffix_def trim_def trimStart_def trimEnd_def isWhiteSpace_def)
  from d m markers_do_not_collide [of DEFAULT_MARKER]
  show ?thesis by blast
qed

text \<open>
  A base marker outside the delimiter format is neither rejected nor sanitized: for
  \<open>MARK\<close> the start marker is a prefix of the end marker, and a description that holds
  only the end marker counts as having generated content.
\<close>

theorem unformatted_marker_accepted_counterexample:
  "\<not> delimiterFormat ''MARK''
   \<and> getMarkers ''MARK'' = \<lparr> markerStart = ''MARK'', markerEnd = ''MARK-end -->'' \<rparr>
   \<and> prefix (markerStart (getMarkers ''MARK'')) (markerEnd (getMarkers ''MARK''))
   \<and> hasGeneratedContent ''MARK-end -->'' ''MARK''"
  by (simp add: delimiterFormat_def getMarkers_def END_MARKER_SUFFIX_def replaceClosing_def
      suffix_def trim_def trimStart_def trimEnd_def isWhiteSpace_def hasGeneratedContent_def
      includesStr_def)

section \<open>Marker codec: parsing\<close>

subsection \<open>Splitting a description\<close>

lemma substring_from_0: "i \<le> length s \<Longrightarrow> substring s 0 i = take i s"
  by (simp add: substring_def)

lemma substringFrom_drop: "substringFrom s a = drop a s"
  by (simp add: substringFrom_def min_def)

lemma substring_between:
  "j \<le> length s \<Longrightarrow>
   substring s a j =
     (if a \<le> j then take (j - a) (drop a s) else take (a - j) (drop j s))"
  by (auto simp: substring_def Let_def min_def max_def)

lemma firstOccurrence_le_length: "firstOccurrence s p k \<Longrightarrow> k \<le> length s"
  by (simp add: firstOccurrence_iff occursAt_def)

lemma parse_split:
  assumes "firstOccurrence d (markerStart (getMarkers m)) i"
    and "firstOccurrence d (markerEnd (getMarkers m)) j" and "i < j"
  shows "parseDescription d m =
     \<lparr> beforeMarker = trim (take i d),
       generatedContent = trim (substring d (i + length (markerStart (getMarkers m))) j),
       afterMarker = trim (drop (j + length (markerEnd (getMarkers m))) d) \<rparr>"
proof -
  have "indexOf d (markerStart (getMarkers m)) = Some i"
    and "indexOf d (markerEnd (getMarkers m)) = Some j"
    using assms by (simp_all add: indexOf_Some_iff)
  moreover have "i \<le> length d" using assms(1) by (rule firstOccurrence_le_length)
  ultimately show ?thesis using assms(3)
    by (simp add: parseDescription_def Let_def substring_from_0 substringFrom_drop)
qed

lemma parse_degenerate:
  assumes "\<not> (\<exists>i j. firstOccurrence d (markerStart (getMarkers m)) i \<and>
                firstOccurrence d (markerEnd (getMarkers m)) j \<and> i < j)"
  shows "parseDescription d m = degenerate d"
proof (cases "indexOf d (markerStart (getMarkers m))")
  case None
  then show ?thesis by (simp add: parseDescription_def Let_def degenerate_def)
next
  case (Some i)
  note i = this
  show ?thesis
  proof (cases "indexOf d (markerEnd (getMarkers m))")
    case None
    with i show ?thesis by (simp add: parseDescription_def Let_def degenerate_def)
  next
    case (Some j)
    with i assms have "\<not> i < j" by (auto simp: indexOf_Some_iff)
    with i Some show ?thesis by (simp add: parseDescription_def Let_def degenerate_def)
  qed
qed

lemma hasGeneratedContent_iff:
  "hasGeneratedContent d m \<longleftrightarrow>
     sublist (markerStart (getMarkers m)) d \<and> sublist (markerEnd (getMarkers m)) d"
  by (simp add: hasGeneratedContent_def Let_def includesStr_sublist)

text \<open>
  Claim C4, as the code has it. \<open>parseDescription\<close> takes the first occurrence of the
  start marker and the first occurrence of the end marker in the whole document. When both
  exist and the start comes strictly first, it returns the trimmed text before the start
  marker, the trimmed text between the two markers and the trimmed text after the end
  marker. In every other case it returns the degenerate split, the document unmodified as
  \<open>beforeMarker\<close>: so it does as soon as the end marker occurs at or before the first
  start marker, whether or not the end marker occurs again later.
\<close>

theorem parseDescription_first_occurrences:
  "(firstOccurrence d (markerStart (getMarkers m)) i \<and>
    firstOccurrence d (markerEnd (getMarkers m)) j \<and> i < j \<longrightarrow>
      parseDescription d m =
        \<lparr> beforeMarker = trim (take i d),
          generatedContent =
            trim (if i + length (markerStart (getMarkers m)) \<le> j
                  then take (j - (i + length (markerStart (getMarkers m))))
                         (drop (i + length (markerStart (getMarkers m))) d)
                  else take (i + length (markerStart (getMarkers m)) - j) (drop j d)),
          afterMarker = trim (drop (j + length (markerEnd (getMarkers m))) d) \<rparr>)
   \<and> (\<not> (\<exists>i j. firstOccurrence d (markerStart (getMarkers m)) i \<and>
               firstOccurrence d (markerEnd (getMarkers m)) j \<and> i < j) \<longrightarrow>
        parseDescription d m = degenerate d)
   \<and> (firstOccurrence d (markerStart (getMarkers m)) i \<and>
      occursAt d (markerEnd (getMarkers m)) k \<and> k \<le> i \<longrightarrow>
        parseDescription d m = degenerate d)"
proof (intro conjI impI)
  assume a: "firstOccurrence d (markerStart (getMarkers m)) i \<and>
    firstOccurrence d (markerEnd (getMarkers m)) j \<and> i < j"
  then have "j \<le> length d" using firstOccurrence_le_length by blast
  then have "substring d (i + length (markerStart (getMarkers m))) j =
      (if i + length (markerStart (getMarkers m)) \<le> j
       then take (j - (i + length (markerStart (getMarkers m))))
              (drop (i + length (markerStart (getMarkers m))) d)
       else take (i + length (markerStart (getMarkers m)) - j) (drop j d))"
    by (rule substring_between)
  with a parse_split [of d m i j]
  show "parseDescription d m =
        \<lparr> beforeMarker = trim (take i d),
          generatedContent =
            trim (if i + length (markerStart (getMarkers m)) \<le> j
                  then take (j - (i + length (markerStart (getMarkers m))))
                         (drop (i + length (markerStart (getMarkers m))) d)
                  else take (i + length (markerStart (getMarkers m)) - j) (drop j d)),
          afterMarker = trim (drop (j + length (markerEnd (getMarkers m))) d) \<rparr>"
    by simp
next
  assume "\<not> (\<exists>i j. firstOccurrence d (markerStart (getMarkers m)) i \<and>
               firstOccurrence d (markerEnd (getMarkers m)) j \<and> i < j)"
  then show "parseDescription d m = degenerate d" by (rule parse_degenerate)
next
  assume a: "firstOccurrence d (markerStart (getMarkers m)) i \<and>
      occursAt d (markerEnd (getMarkers m)) k \<and> k \<le> i"
  have "\<not> (\<exists>i j. firstOccurrence d (markerStart (getMarkers m)) i \<and>
               firstOccurrence d (markerEnd (getMarkers m)) j \<and> i < j)"
  proof
    assume "\<exists>i j. firstOccurrence d (markerStart (getMarkers m)) i \<and>
               firstOccurrence d (markerEnd (getMarkers m)) j \<and> i < j"
    then obtain i' j' where b: "firstOccurrence d (markerStart (getMarkers m)) i'"
      "firstOccurrence d (markerEnd (getMarkers m)) j'" "i' < j'" by blast
    from a b(1) have "i' = i" using firstOccurrence_unique by blast
    with a b(3) have "k < j'" by simp
    with b(2) have "\<not> occursAt d (markerEnd (getMarkers m)) k"
      by (simp add: firstOccurrence_iff)
    with a show False by simp
  qed
  then show "parseDescription d m = degenerate d" by (rule parse_degenerate)
qed

theorem parseDescription_first_occurrences_witness:
  "parseDescription
     ''Before content\<newline>\<newline><!-- gemini-pr-description -->\<newline>Generated\<newline><!-- gemini-pr-description-end -->\<newline>\<newline>After content''
     DEFAULT_MARKER =
     \<lparr> beforeMarker = ''Before content'', generatedContent = ''Generated'',
       afterMarker = ''After content'' \<rparr>
   \<and> parseDescription ''no markers here'' DEFAULT_MARKER = degenerate ''no markers here''
   \<and> parseDescription
       ''<!-- gemini-pr-description-end -->\<newline><!-- gemini-pr-description -->\<newline>Old\<newline><!-- gemini-pr-description-end -->''
       DEFAULT_MARKER =
     degenerate ''<!-- gemini-pr-description-end -->\<newline><!-- gemini-pr-description -->\<newline>Old\<newline><!-- gemini-pr-description-end -->''"
proof -
  let ?s = "markerStart (getMarkers DEFAULT_MARKER)"
  let ?e = "markerEnd (getMarkers DEFAULT_MARKER)"
  let ?d1 = "''Before content\<newline>\<newline><!-- gemini-pr-description -->\<newline>Generated\<newline><!-- gemini-pr-description-end -->\<newline>\<newline>After content''"
  let ?d3 = "''<!-- gemini-pr-description-end -->\<newline><!-- gemini-pr-description -->\<newline>Old\<newline><!-- gemini-pr-description-end -->''"
  have h1: "firstOccurrence ?d1 ?s 16 \<and> firstOccurrence ?d1 ?e 57 \<and> (16::nat) < 57"
    by code_simp
  have v1: "trim (take 16 ?d1) = ''Before content''"
    "trim (if 16 + length ?s \<le> 57 then take (57 - (16 + length ?s)) (drop (16 + length ?s) ?d1)
           else take (16 + length ?s - 57) (drop 57 ?d1)) = ''Generated''"
    "trim (drop (57 + length ?e) ?d1) = ''After content''"
    by code_simp+
  have h2: "\<not> (\<exists>i j. firstOccurrence ''no markers here'' ?s i \<and>
               firstOccurrence ''no markers here'' ?e j \<and> i < j)"
  proof -
    have "indexOf ''no markers here'' ?s = None" by code_simp
    then show ?thesis by (simp add: indexOf_Some_iff [symmetric])
  qed
  have h3: "firstOccurrence ?d3 ?s 35 \<and> occursAt ?d3 ?e 0 \<and> (0::nat) \<le> 35"
    by code_simp
  from parseDescription_first_occurrences [of ?d1 DEFAULT_MARKER 16 57 0] h1 v1
  have "parseDescription ?d1 DEFAULT_MARKER =
     \<lparr> beforeMarker = ''Before content'', generatedContent = ''Generated'',
       afterMarker = ''After content'' \<rparr>"
    by simp
  moreover from parseDescription_first_occurrences [of "''no markers here''" DEFAULT_MARKER 0 0 0] h2
  have "parseDescription ''no markers here'' DEFAULT_MARKER = degenerate ''no markers here''"
    by blast
  moreover from parseDescription_first_occurrences [of ?d3 DEFAULT_MARKER 35 0 0] h3
  have "parseDescription ?d3 DEFAULT_MARKER = degenerate ?d3"
    by blast
  ultimately show ?thesis by blast
qed

text \<open>
  The split as specified differs from the code on a document whose end marker occurs both
  before and after the start marker: the specification splits at the later end marker, the
  code returns the degenerate split.
\<close>

theorem parseDescription_end_before_start_counterexample:
  "firstOccurrence
     ''<!-- gemini-pr-description-end -->\<newline><!-- gemini-pr-description -->\<newline>Old\<newline><!-- gemini-pr-description-end -->''
     (markerStart (getMarkers DEFAULT_MARKER)) 35
   \<and> occursAt
     ''<!-- gemini-pr-description-end -->\<newline><!-- gemini-pr-description -->\<newline>Old\<newline><!-- gemini-pr-description-end -->''
     (markerEnd (getMarkers DEFAULT_MARKER)) 70
   \<and> parseAsSpecified
     ''<!-- gemini-pr-description-end -->\<newline><!-- gemini-pr-description -->\<newline>Old\<newline><!-- gemini-pr-description-end -->''
     DEFAULT_MARKER =
       \<lparr> beforeMarker = ''<!-- gemini-pr-description-end -->'', generatedContent = ''Old'',
         afterMarker = [] \<rparr>
   \<and> parseDescription
     ''<!-- gemini-pr-description-end -->\<newline><!-- gemini-pr-description -->\<newline>Old\<newline><!-- gemini-pr-description-end -->''
     DEFAULT_MARKER =
       \<lparr> beforeMarker = ''<!-- gemini-pr-description-end -->\<newline><!-- gemini-pr-description -->\<newline>Old\<newline><!-- gemini-pr-description-end -->'',
         generatedContent = [], afterMarker = [] \<rparr>
   \<and> parseDescription
     ''<!-- gemini-pr-description-end -->\<newline><!-- gemini-pr-description -->\<newline>Old\<newline><!-- gemini-pr-description-end -->''
     DEFAULT_MARKER \<noteq>
     parseAsSpecified
     ''<!-- gemini-pr-description-end -->\<newline><!-- gemini-pr-description -->\<newline>Old\<newline><!-- gemini-pr-description-end -->''
     DEFAULT_MARKER"
  by code_simp

section \<open>Update-mode policy: smart\<close>

subsection \<open>Smart mode\<close>

lemma wrapped_not_blank: "trim (wrapWithMarkers g m) \<noteq> []"
proof -
  have "sublist (markerEnd (getMarkers m)) (wrapWithMarkers g m)"
    unfolding wrapWithMarkers_def Let_def sublist_def by (metis append.assoc append_Nil2)
  then show ?thesis by (rule contains_markerEnd_not_blank)
qed

lemma smart_parts:
  assumes "trim w \<noteq> []"
  shows "join ''\<newline>\<newline>'' (filter (\<lambda>s. length (trim s) > 0) [trim b, w, trim a]) =
         splice (trim b) w (trim a)"
  using assms by (simp add: trim_trim splice_def)

lemma smart_split:
  assumes "firstOccurrence d (markerStart (getMarkers m)) i"
    and "firstOccurrence d (markerEnd (getMarkers m)) j" and "i < j"
  shows "applyUpdateMode d g Smart m =
     splice (trim (take i d)) (wrapWithMarkers g m)
       (trim (drop (j + length (markerEnd (getMarkers m))) d))"
proof -
  have "hasGeneratedContent d m"
    unfolding hasGeneratedContent_iff using assms(1,2) firstOccurrence_ex by blast
  moreover note parse_split [OF assms]
  ultimately have "applyUpdateMode d g Smart m =
      join ''\<newline>\<newline>'' (filter (\<lambda>s. length (trim s) > 0)
        [trim (take i d), wrapWithMarkers g m,
         trim (drop (j + length (markerEnd (getMarkers m))) d)])"
    by (simp add: Let_def)
  then show ?thesis by (simp only: smart_parts [OF wrapped_not_blank])
qed

lemma smart_no_split:
  assumes "\<not> (\<exists>i j. firstOccurrence d (markerStart (getMarkers m)) i \<and>
                firstOccurrence d (markerEnd (getMarkers m)) j \<and> i < j)"
  shows "applyUpdateMode d g Smart m =
     (if trim d = [] then wrapWithMarkers g m
      else (if hasGeneratedContent d m then d else trim d) @ ''\<newline>\<newline>'' @ wrapWithMarkers g m)"
proof (cases "hasGeneratedContent d m")
  case True
  then have "trim d \<noteq> []"
    unfolding hasGeneratedContent_iff using contains_markerEnd_not_blank by blast
  moreover have "trim [] = []" by (simp add: trim_Nil_iff nonWhite_def)
  moreover note wrapped_not_blank [of g m] parse_degenerate [OF assms] True
  ultimately show ?thesis by (simp add: Let_def degenerate_def)
next
  case False
  then show ?thesis by (simp add: Let_def)
qed

text \<open>
  Claim C1. In mode \<open>smart\<close>, \<open>applyUpdateMode\<close> never deletes the text before and
  after the marked block. When the existing description holds a well-formed marker pair
  (the first start marker strictly before the first end marker), the result is the
  \<open>beforeMarker\<close> region of \<open>parseDescription\<close>, the newly wrapped content and the
  \<open>afterMarker\<close> region, in this order, joined by blank lines with empty regions left
  out: only the interior of the block is replaced. Otherwise the wrapped content is
  appended after the existing content, or returned alone when the existing description is
  blank.
\<close>

theorem smart_keeps_user_text:
  "(firstOccurrence d (markerStart (getMarkers m)) i \<and>
    firstOccurrence d (markerEnd (getMarkers m)) j \<and> i < j \<longrightarrow>
      applyUpdateMode d g Smart m =
        splice (beforeMarker (parseDescription d m)) (wrapWithMarkers g m)
          (afterMarker (parseDescription d m)))
   \<and> (\<not> (\<exists>i j. firstOccurrence d (markerStart (getMarkers m)) i \<and>
               firstOccurrence d (markerEnd (getMarkers m)) j \<and> i < j) \<longrightarrow>
        applyUpdateMode d g Smart m =
          (if trim d = [] then wrapWithMarkers g m
           else (if hasGeneratedContent d m then d else trim d) @ ''\<newline>\<newline>'' @
                wrapWithMarkers g m))"
proof (intro conjI impI)
  assume a: "firstOccurrence d (markerStart (getMarkers m)) i \<and>
    firstOccurrence d (markerEnd (getMarkers m)) j \<and> i < j"
  then have "parseDescription d m =
     \<lparr> beforeMarker = trim (take i d),
       generatedContent = trim (substring d (i + length (markerStart (getMarkers m))) j),
       afterMarker = trim (drop (j + length (markerEnd (getMarkers m))) d) \<rparr>"
    using parse_split by blast
  moreover from a have "applyUpdateMode d g Smart m =
     splice (trim (take i d)) (wrapWithMarkers g m)
       (trim (drop (j + length (markerEnd (getMarkers m))) d))"
    using smart_split by blast
  ultimately show "applyUpdateMode d g Smart m =
        splice (beforeMarker (parseDescription d m)) (wrapWithMarkers g m)
          (afterMarker (parseDescription d m))"
    by simp
next
  assume "\<not> (\<exists>i j. firstOccurrence d (markerStart (getMarkers m)) i \<and>
               firstOccurrence d (markerEnd (getMarkers m)) j \<and> i < j)"
  then show "applyUpdateMode d g Smart m =
          (if trim d = [] then wrapWithMarkers g m
           else (if hasGeneratedContent d m then d else trim d) @ ''\<newline>\<newline>'' @
                wrapWithMarkers g m)"
    by (rule smart_no_split)
qed

theorem smart_keeps_user_text_witness:
  "applyUpdateMode
     ''User notes\<newline>\<newline><!-- gemini-pr-description -->\<newline>\<newline>Old\<newline>\<newline><!-- gemini-pr-description-end -->\<newline>\<newline>Footer''
     ''New'' Smart DEFAULT_MARKER =
     ''User notes\<newline>\<newline><!-- gemini-pr-description -->\<newline>\<newline>New\<newline>\<newline><!-- gemini-pr-description-end -->\<newline>\<newline>Footer''
   \<and> applyUpdateMode ''User content'' ''New'' Smart DEFAULT_MARKER =
     ''User content\<newline>\<newline><!-- gemini-pr-description -->\<newline>\<newline>New\<newline>\<newline><!-- gemini-pr-description-end -->''"
proof -
  let ?s = "markerStart (getMarkers DEFAULT_MARKER)"
  let ?e = "markerEnd (getMarkers DEFAULT_MARKER)"
  let ?d = "''User notes\<newline>\<newline><!-- gemini-pr-description -->\<newline>\<newline>Old\<newline>\<newline><!-- gemini-pr-description-end -->\<newline>\<newline>Footer''"
  have h1: "firstOccurrence ?d ?s 12 \<and> firstOccurrence ?d ?e 49 \<and> (12::nat) < 49"
    by code_simp
  have v1: "splice (beforeMarker (parseDescription ?d DEFAULT_MARKER))
              (wrapWithMarkers ''New'' DEFAULT_MARKER)
              (afterMarker (parseDescription ?d DEFAULT_MARKER)) =
     ''User notes\<newline>\<newline><!-- gemini-pr-description -->\<newline>\<newline>New\<newline>\<newline><!-- gemini-pr-description-end -->\<newline>\<newline>Footer''"
    by code_simp
  have h2: "\<not> (\<exists>i j. firstOccurrence ''User content'' ?s i \<and>
               firstOccurrence ''User content'' ?e j \<and> i < j)"
  proof -
    have "indexOf ''User content'' ?s = None" by code_simp
    then show ?thesis by (simp add: indexOf_Some_iff [symmetric])
  qed
  have v2: "(if trim ''User content'' = [] then wrapWithMarkers ''New'' DEFAULT_MARKER
           else (if hasGeneratedContent ''User content'' DEFAULT_MARKER then ''User content''
                 else trim ''User content'') @ ''\<newline>\<newline>'' @
                wrapWithMarkers ''New'' DEFAULT_MARKER) =
     ''User content\<newline>\<newline><!-- gemini-pr-description -->\<newline>\<newline>New\<newline>\<newline><!-- gemini-pr-description-end -->''"
    by code_simp
  from smart_keeps_user_text [of ?d DEFAULT_MARKER 12 49 "''New''"] h1 v1
  have "applyUpdateMode ?d ''New'' Smart DEFAULT_MARKER =
     ''User notes\<newline>\<newline><!-- gemini-pr-description -->\<newline>\<newline>New\<newline>\<newline><!-- gemini-pr-description-end -->\<newline>\<newline>Footer''"
    by (simp del: applyUpdateMode.simps)
  moreover from smart_keeps_user_text [of "''User content''" DEFAULT_MARKER 0 0 "''New''"] h2 v2
  have "applyUpdateMode ''User content'' ''New'' Smart DEFAULT_MARKER =
     ''User content\<newline>\<newline><!-- gemini-pr-description -->\<newline>\<newline>New\<newline>\<newline><!-- gemini-pr-description-end -->''"
    by (simp del: applyUpdateMode.simps)
  ultimately show ?thesis by blast
qed

text \<open>
  Claim C10. Whenever \<open>parseDescription\<close> finds the start marker strictly before the
  end marker, the \<open>beforeMarker\<close> and \<open>afterMarker\<close> regions are the text before the
  start marker and the text after the end marker with leading and trailing white space
  removed, not the verbatim substrings; so the smart mode puts exactly one blank line
  between the trimmed user text and the wrapped content, whatever white space the user
  had there.
\<close>

theorem parseDescription_regions_trimmed:
  "firstOccurrence d (markerStart (getMarkers m)) i \<and>
   firstOccurrence d (markerEnd (getMarkers m)) j \<and> i < j \<longrightarrow>
     beforeMarker (parseDescription d m) = trim (take i d)
     \<and> afterMarker (parseDescription d m) =
         trim (drop (j + length (markerEnd (getMarkers m))) d)
     \<and> applyUpdateMode d g Smart m =
         splice (trim (take i d)) (wrapWithMarkers g m)
           (trim (drop (j + length (markerEnd (getMarkers m))) d))"
proof
  assume a: "firstOccurrence d (markerStart (getMarkers m)) i \<and>
    firstOccurrence d (markerEnd (getMarkers m)) j \<and> i < j"
  then have "parseDescription d m =
     \<lparr> beforeMarker = trim (take i d),
       generatedContent = trim (substring d (i + length (markerStart (getMarkers m))) j),
       afterMarker = trim (drop (j + length (markerEnd (getMarkers m))) d) \<rparr>"
    using parse_split by blast
  moreover from a have "applyUpdateMode d g Smart m =
     splice (trim (take i d)) (wrapWithMarkers g m)
       (trim (drop (j + length (markerEnd (getMarkers m))) d))"
    using smart_split by blast
  ultimately show "beforeMarker (parseDescription d m) = trim (take i d)
     \<and> afterMarker (parseDescription d m) =
         trim (drop (j + length (markerEnd (getMarkers m))) d)
     \<and> applyUpdateMode d g Smart m =
         splice (trim (take i d)) (wrapWithMarkers g m)
           (trim (drop (j + length (markerEnd (getMarkers m))) d))"
    by simp
qed

theorem parseDescription_regions_trimmed_witness:
  "take 11 ''  Notes \<newline>\<newline>\<newline><!-- gemini-pr-description -->Old<!-- gemini-pr-description-end -->\<newline> \<newline>Bye \<newline>'' = ''  Notes \<newline>\<newline>\<newline>''
   \<and> beforeMarker (parseDescription
       ''  Notes \<newline>\<newline>\<newline><!-- gemini-pr-description -->Old<!-- gemini-pr-description-end -->\<newline> \<newline>Bye \<newline>''
       DEFAULT_MARKER) = ''Notes''
   \<and> afterMarker (parseDescription
       ''  Notes \<newline>\<newline>\<newline><!-- gemini-pr-description -->Old<!-- gemini-pr-description-end -->\<newline> \<newline>Bye \<newline>''
       DEFAULT_MARKER) = ''Bye''
   \<and> applyUpdateMode
       ''  Notes \<newline>\<newline>\<newline><!-- gemini-pr-description -->Old<!-- gemini-pr-description-end -->\<newline> \<newline>Bye \<newline>''
       ''New'' Smart DEFAULT_MARKER =
     ''Notes\<newline>\<newline><!-- gemini-pr-description -->\<newline>\<newline>New\<newline>\<newline><!-- gemini-pr-description-end -->\<newline>\<newline>Bye''"
proof -
  let ?s = "markerStart (getMarkers DEFAULT_MARKER)"
  let ?e = "markerEnd (getMarkers DEFAULT_MARKER)"
  let ?d = "''  Notes \<newline>\<newline>\<newline><!-- gemini-pr-description -->Old<!-- gemini-pr-description-end -->\<newline> \<newline>Bye \<newline>''"
  have h: "firstOccurrence ?d ?s 11 \<and> firstOccurrence ?d ?e 44 \<and> (11::nat) < 44"
    by code_simp
  have v: "take 11 ?d = ''  Notes \<newline>\<newline>\<newline>''" "trim (take 11 ?d) = ''Notes''"
    "trim (drop (44 + length ?e) ?d) = ''Bye''"
    "splice ''Notes'' (wrapWithMarkers ''New'' DEFAULT_MARKER) ''Bye'' =
       ''Notes\<newline>\<newline><!-- gemini-pr-description -->\<newline>\<newline>New\<newline>\<newline><!-- gemini-pr-description-end -->\<newline>\<newline>Bye''"
    by code_simp+
  from parseDescription_regions_trimmed [of ?d DEFAULT_MARKER 11 44 "''New''"] h v
  show ?thesis by (simp del: applyUpdateMode.simps)
qed

section \<open>Marker codec: round trip\<close>

subsection \<open>Wrapping and parsing again\<close>

lemma set_trimStart: "set (trimStart s) \<subseteq> set s"
  unfolding trimStart_def by (auto dest: set_dropWhileD)

lemma set_trimEnd: "set (trimEnd s) \<subseteq> set s"
  unfolding trimEnd_def by (auto dest: set_dropWhileD)

lemma set_trim: "set (trim s) \<subseteq> set s"
  unfolding trim_def using set_trimStart set_trimEnd by blast

lemma set_replaceClosing: "set (replaceClosing s) \<subseteq> set s"
  unfolding replaceClosing_def using set_trimEnd [of "take (length s - 3) s"]
  by (auto dest: in_set_takeD)

lemma singleLine_markerEnd:
  assumes "singleLine marker"
  shows "CHR 0x0A \<notin> set (markerEnd (getMarkers marker))"
proof -
  have "CHR 0x0A \<notin> set (trim (replaceClosing marker))"
    using assms set_trim [of "replaceClosing marker"] set_replaceClosing [of marker]
    unfolding singleLine_def by blast
  then show ?thesis by (simp add: markerEnd_getMarkers)
qed

lemma sublist_across_char:
  assumes "c \<notin> set e" and "e \<noteq> []"
  shows "sublist e (a @ c # b) \<longleftrightarrow> sublist e a \<or> sublist e b"
proof
  assume "sublist e (a @ c # b)"
  then consider "sublist e a" | "sublist e (c # b)"
    | x1 x2 where "e = x1 @ x2" "suffix x1 a" "prefix x2 (c # b)"
    unfolding sublist_append by blast
  then show "sublist e a \<or> sublist e b"
  proof cases
    case 1
    then show ?thesis by simp
  next
    case 2
    then have "prefix e (c # b) \<or> sublist e b" by (simp add: sublist_Cons_right)
    moreover have "\<not> prefix e (c # b)"
      using assms by (cases e) auto
    ultimately show ?thesis by simp
  next
    case 3
    have "x2 = []"
    proof (cases x2)
      case Nil
      then show ?thesis .
    next
      case (Cons y ys)
      with 3(3) have "y = c" by simp
      with Cons 3(1) assms(1) show ?thesis by simp
    qed
    with 3 have "suffix e a" by simp
    then show ?thesis using suffix_imp_sublist by blast
  qed
next
  assume "sublist e a \<or> sublist e b"
  then show "sublist e (a @ c # b)"
    by (auto simp: sublist_append sublist_Cons_right)
qed

lemma prefix_of_long_prefix:
  assumes "prefix xs (ys @ zs)" and "length xs \<le> length ys"
  shows "prefix xs ys"
  using assms(1) _ assms(2) by (rule prefix_length_prefix) simp

lemma firstOccurrence_append:
  assumes "\<not> sublist e (u @ butlast e)" and "e \<noteq> []"
  shows "firstOccurrence (u @ e @ v) e (length u)"
  unfolding firstOccurrence_iff
proof (intro conjI allI impI)
  show "occursAt (u @ e @ v) e (length u)" by (simp add: occursAt_def)
next
  fix k assume k: "k < length u"
  show "\<not> occursAt (u @ e @ v) e k"
  proof
    assume "occursAt (u @ e @ v) e k"
    then have "prefix e (drop k u @ e @ v)" using k by (simp add: occursAt_def)
    moreover have "e @ v = butlast e @ (last e # v)" using assms(2) by simp
    ultimately have "prefix e ((drop k u @ butlast e) @ (last e # v))" by simp
    moreover have "length e \<le> length (drop k u @ butlast e)" using k assms(2) by (cases e) auto
    ultimately have "prefix e (drop k u @ butlast e)" by (rule prefix_of_long_prefix)
    then have "prefix e (drop k (u @ butlast e))" using k by simp
    then have "occursAt (u @ butlast e) e k" using k by (simp add: occursAt_def)
    then have "sublist e (u @ butlast e)" using occursAt_sublist by blast
    with assms(1) show False ..
  qed
qed

lemma wrapped_end_position:
  assumes "singleLine marker" and "\<not> sublist (markerEnd (getMarkers marker)) content"
  shows "firstOccurrence (wrapWithMarkers content marker) (markerEnd (getMarkers marker))
           (length marker + length content + 4)"
proof -
  let ?e = "markerEnd (getMarkers marker)"
  let ?u = "marker @ ''\<newline>\<newline>'' @ content @ ''\<newline>\<newline>''"
  have lf: "CHR 0x0A \<notin> set ?e" using assms(1) by (rule singleLine_markerEnd)
  have ne: "?e \<noteq> []" by (rule markerEnd_not_Nil)
  have lfb: "CHR 0x0A \<notin> set (butlast ?e)" using lf by (auto dest: in_set_butlastD)
  have "\<not> sublist ?e (butlast ?e)"
    using sublist_length_le [of ?e "butlast ?e"] ne by (cases ?e) auto
  moreover have "\<not> sublist ?e []" using ne by simp
  moreover note markerEnd_not_in_marker [of marker] assms(2)
  ultimately have "\<not> sublist ?e (marker @ CHR 0x0A # ([] @ CHR 0x0A # (content @ CHR 0x0A #
      ([] @ CHR 0x0A # butlast ?e))))"
    by (simp only: sublist_across_char [OF lf ne] simp_thms)
  then have "\<not> sublist ?e (?u @ butlast ?e)" by simp
  then have "firstOccurrence (?u @ ?e @ []) ?e (length ?u)" using ne
    by (rule firstOccurrence_append)
  moreover have "?u @ ?e @ [] = wrapWithMarkers content marker"
    by (simp add: wrapWithMarkers_def Let_def markerStart_getMarkers)
  moreover have "length ?u = length marker + length content + 4" by simp
  ultimately show ?thesis by (simp only:)
qed

lemma closingPosition_eq: "closingPosition content marker = length marker + length content + 4"
  by (simp add: closingPosition_def markerStart_getMarkers)

lemma round_trip_at_closing:
  assumes "firstOccurrence (wrapWithMarkers content marker) (markerEnd (getMarkers marker))
             (closingPosition content marker)"
  shows "generatedContent (parseDescription (wrapWithMarkers content marker) marker) =
           trim content"
proof -
  let ?w = "wrapWithMarkers content marker"
  let ?j = "length marker + length content + 4"
  have w: "?w = marker @ ''\<newline>\<newline>'' @ content @ ''\<newline>\<newline>'' @ markerEnd (getMarkers marker)"
    by (simp add: wrapWithMarkers_def Let_def markerStart_getMarkers)
  have s: "firstOccurrence ?w (markerStart (getMarkers marker)) 0"
    by (simp add: firstOccurrence_0 w markerStart_getMarkers)
  have e: "firstOccurrence ?w (markerEnd (getMarkers marker)) ?j"
    using assms by (simp only: closingPosition_eq)
  have "parseDescription ?w marker =
     \<lparr> beforeMarker = trim (take 0 ?w),
       generatedContent = trim (substring ?w (0 + length (markerStart (getMarkers marker))) ?j),
       afterMarker = trim (drop (?j + length (markerEnd (getMarkers marker))) ?w) \<rparr>"
    using s e by (rule parse_split) simp
  moreover have "substring ?w (length marker) ?j = ''\<newline>\<newline>'' @ content @ ''\<newline>\<newline>''"
  proof -
    let ?x = "''\<newline>\<newline>'' @ content @ ''\<newline>\<newline>''"
    have x: "length ?x = length content + 4" by simp
    have "?j \<le> length ?w" by (simp add: w)
    then have "substring ?w (length marker) ?j = take (?j - length marker) (drop (length marker) ?w)"
      by (simp add: substring_between)
    also have "drop (length marker) ?w = ?x @ markerEnd (getMarkers marker)" by (simp add: w)
    also have "?j - length marker = length ?x" by simp
    also have "take (length ?x) (?x @ markerEnd (getMarkers marker)) = ?x" by simp
    finally show ?thesis .
  qed
  ultimately have "generatedContent (parseDescription ?w marker) =
      trim (''\<newline>\<newline>'' @ content @ ''\<newline>\<newline>'')"
    by (simp add: markerStart_getMarkers)
  then show ?thesis by (simp only: trim_blank_lines)
qed

lemma singleLine_closing:
  assumes "singleLine marker" and "\<not> includesStr content (markerEnd (getMarkers marker))"
  shows "firstOccurrence (wrapWithMarkers content marker) (markerEnd (getMarkers marker))
           (closingPosition content marker)"
  unfolding closingPosition_eq
  using assms by (intro wrapped_end_position) (simp_all add: includesStr_sublist)

text \<open>
  Claim C2, as the code has it. Round trip: for every content and every base marker such
  that the derived end marker does not occur in the wrapped text before the closing end
  marker, parsing the wrapped text gives the content back as the generated region, trimmed
  of leading and trailing white space. This is so whenever the base marker holds no line
  feed and the content does not contain the end marker.
\<close>

theorem wrap_parse_round_trip:
  "(firstOccurrence (wrapWithMarkers content marker) (markerEnd (getMarkers marker))
      (closingPosition content marker) \<longrightarrow>
    generatedContent (parseDescription (wrapWithMarkers content marker) marker) =
      trim content)
   \<and> (singleLine marker \<and> \<not> includesStr content (markerEnd (getMarkers marker)) \<longrightarrow>
      firstOccurrence (wrapWithMarkers content marker) (markerEnd (getMarkers marker))
        (closingPosition content marker)
      \<and> generatedContent (parseDescription (wrapWithMarkers content marker) marker) =
          trim content)"
proof (intro conjI impI)
  assume "firstOccurrence (wrapWithMarkers content marker) (markerEnd (getMarkers marker))
      (closingPosition content marker)"
  then show "generatedContent (parseDescription (wrapWithMarkers content marker) marker) =
      trim content"
    by (rule round_trip_at_closing)
next
  assume a: "singleLine marker \<and> \<not> includesStr content (markerEnd (getMarkers marker))"
  then show c: "firstOccurrence (wrapWithMarkers content marker) (markerEnd (getMarkers marker))
        (closingPosition content marker)"
    using singleLine_closing by blast
  then show "generatedContent (parseDescription (wrapWithMarkers content marker) marker) =
      trim content"
    by (rule round_trip_at_closing)
qed

theorem wrap_parse_round_trip_witness:
  "generatedContent (parseDescription
       (wrapWithMarkers ''  ## Summary\<newline>Adds a <!-- comment -->\<newline> '' DEFAULT_MARKER) DEFAULT_MARKER)
     = ''## Summary\<newline>Adds a <!-- comment -->''
   \<and> generatedContent (parseDescription
       (wrapWithMarkers '' One\<newline>\<newline>Two '' ''<!-- a\<newline>\<newline>b -->'') ''<!-- a\<newline>\<newline>b -->'')
     = ''One\<newline>\<newline>Two''"
proof -
  let ?x = "''  ## Summary\<newline>Adds a <!-- comment -->\<newline> ''"
  let ?m = "''<!-- a\<newline>\<newline>b -->''"
  let ?y = "'' One\<newline>\<newline>Two ''"
  have a: "singleLine DEFAULT_MARKER \<and> \<not> includesStr ?x (markerEnd (getMarkers DEFAULT_MARKER))"
    by code_simp
  have b: "trim ?x = ''## Summary\<newline>Adds a <!-- comment -->''"
    by code_simp
  have c: "firstOccurrence (wrapWithMarkers ?y ?m) (markerEnd (getMarkers ?m))
             (closingPosition ?y ?m)"
    by code_simp
  have d: "trim ?y = ''One\<newline>\<newline>Two''" by code_simp
  from wrap_parse_round_trip [of ?x DEFAULT_MARKER] a b
  have "generatedContent (parseDescription (wrapWithMarkers ?x DEFAULT_MARKER) DEFAULT_MARKER)
     = ''## Summary\<newline>Adds a <!-- comment -->''"
    by simp
  moreover from wrap_parse_round_trip [of ?y ?m] c d
  have "generatedContent (parseDescription (wrapWithMarkers ?y ?m) ?m) = ''One\<newline>\<newline>Two''"
    by simp
  ultimately show ?thesis by blast
qed

text \<open>
  With a blank line inside the base marker the round trip can fail, for a marker in the
  delimiter format and a content that contains neither the start nor the end marker: the
  end marker is found across the tail of the start marker, the blank line and the content.
\<close>

theorem round_trip_blank_line_marker_counterexample:
  "delimiterFormat ''<!--X-->\<newline>\<newline><!--X-->''
   \<and> getMarkers ''<!--X-->\<newline>\<newline><!--X-->'' =
       \<lparr> markerStart = ''<!--X-->\<newline>\<newline><!--X-->'',
         markerEnd = ''<!--X-->\<newline>\<newline><!--X-end -->'' \<rparr>
   \<and> \<not> includesStr ''<!--X-end -->'' (markerStart (getMarkers ''<!--X-->\<newline>\<newline><!--X-->''))
   \<and> \<not> includesStr ''<!--X-end -->'' (markerEnd (getMarkers ''<!--X-->\<newline>\<newline><!--X-->''))
   \<and> indexOf (wrapWithMarkers ''<!--X-end -->'' ''<!--X-->\<newline>\<newline><!--X-->'')
         (markerEnd (getMarkers ''<!--X-->\<newline>\<newline><!--X-->'')) = Some 10
   \<and> generatedContent (parseDescription
         (wrapWithMarkers ''<!--X-end -->'' ''<!--X-->\<newline>\<newline><!--X-->'')
         ''<!--X-->\<newline>\<newline><!--X-->'') = ''<!--X-->''
   \<and> trim ''<!--X-end -->'' = ''<!--X-end -->''"
  by code_simp

section \<open>Generator retry loop\<close>

subsection \<open>The retry loop\<close>

lemma failure_Some: "failure api n = Some err \<longleftrightarrow> attemptBody (api n) = Inl err"
  by (simp add: failure_def split: sum.splits)

lemma attempts_append: "attempts (a @ b) = attempts a @ attempts b"
  by (simp add: attempts_def)

lemma attempts_simps:
  "attempts [] = []" "attempts (Attempt n # tr) = n # attempts tr"
  "attempts (Sleep d # tr) = attempts tr"
  by (simp_all add: attempts_def)

lemma attemptLoop_calls:
  "length (attempts (trace (attemptLoop api attempt lastError tr))) \<le>
     length (attempts tr) + (maxRetries + 1 - attempt)"
proof (induction api attempt lastError tr rule: attemptLoop.induct)
  case (1 api attempt lastError tr)
  show ?case
  proof (cases "attempt \<le> maxRetries")
    case False
    then show ?thesis by (subst attemptLoop.simps) simp
  next
    case True
    note le = this
    show ?thesis
    proof (cases "attemptBody (api attempt)")
      case (Inr t)
      with le show ?thesis
        by (subst attemptLoop.simps) (simp add: attempts_append attempts_simps)
    next
      case (Inl err)
      show ?thesis
      proof (cases "isRetryableError err")
        case False
        with le Inl show ?thesis
          by (subst attemptLoop.simps) (simp add: attempts_append attempts_simps)
      next
        case True
        note re = this
        show ?thesis
        proof (cases "attempt < maxRetries")
          case True
          note lt = this
          from "1.IH"(1) [OF le Inl re lt] le Inl re lt show ?thesis
            by (subst attemptLoop.simps) (simp add: attempts_append attempts_simps)
        next
          case False
          note nlt = this
          from "1.IH"(2) [OF le Inl re nlt] le Inl re nlt show ?thesis
            by (subst attemptLoop.simps) (simp add: attempts_append attempts_simps)
        qed
      qed
    qed
  qed
qed

lemma generateDescription_calls: "length (attempts (trace (generateDescription api))) \<le> 3"
  using attemptLoop_calls [of api 1 None "[]"]
  by (simp add: generateDescription_def maxRetries_def attempts_simps)

lemma retryTrace_values:
  "retryTrace 1 = [Attempt 1]"
  "retryTrace 2 = [Attempt 1, Sleep 2000, Attempt 2]"
  "retryTrace 3 = [Attempt 1, Sleep 2000, Attempt 2, Sleep 4000, Attempt 3]"
  by code_simp+

lemma attemptLoop_retry:
  assumes "attemptBody (api attempt) = Inl err" and "isRetryableError err"
    and "attempt < maxRetries"
  shows "attemptLoop api attempt lastError tr =
     attemptLoop api (attempt + 1) (Some err) (tr @ [Attempt attempt, Sleep (2 ^ attempt * 1000)])"
  using assms by (subst attemptLoop.simps) simp

lemma attemptLoop_last_retry:
  assumes "attemptBody (api attempt) = Inl err" and "isRetryableError err"
    and "attempt = maxRetries"
  shows "attemptLoop api attempt lastError tr =
     \<lparr> outcome = Inl err, trace = tr @ [Attempt attempt] \<rparr>"
proof -
  have "attemptLoop api attempt lastError tr =
      attemptLoop api (attempt + 1) (Some err) (tr @ [Attempt attempt])"
    using assms by (subst attemptLoop.simps) simp
  also have "\<dots> = \<lparr> outcome = Inl err, trace = tr @ [Attempt attempt] \<rparr>"
    using assms(3) by (subst attemptLoop.simps) simp
  finally show ?thesis .
qed

lemma attemptLoop_fatal:
  assumes "attemptBody (api attempt) = Inl err" and "\<not> isRetryableError err"
    and "attempt \<le> maxRetries"
  shows "attemptLoop api attempt lastError tr =
     \<lparr> outcome = Inl err, trace = tr @ [Attempt attempt] \<rparr>"
  using assms by (subst attemptLoop.simps) simp

lemma retryable_1_2:
  assumes "retryableUntil api 3"
  obtains e1 e2 where "attemptBody (api 1) = Inl e1" "isRetryableError e1"
    "attemptBody (api 2) = Inl e2" "isRetryableError e2"
proof -
  have "[1..<3] = [1, 2::nat]" by code_simp
  with assms show ?thesis using that
    by (auto simp: retryableUntil_def failure_def split: sum.splits)
qed

lemma retryable_1:
  assumes "retryableUntil api 2"
  obtains e1 where "attemptBody (api 1) = Inl e1" "isRetryableError e1"
proof -
  have "[1..<2] = [1::nat]" by code_simp
  with assms show ?thesis using that
    by (auto simp: retryableUntil_def failure_def split: sum.splits)
qed

lemma retryableUntil_4:
  "retryableUntil api 4 \<longleftrightarrow>
     retryableUntil api 3 \<and> (\<exists>err. attemptBody (api 3) = Inl err \<and> isRetryableError err)"
proof -
  have "[1..<4] = [1..<3] @ [3::nat]" by code_simp
  then show ?thesis
    by (auto simp: retryableUntil_def failure_def split: sum.splits)
qed

lemma first_two_retried:
  assumes "retryableUntil api 3"
  shows "generateDescription api =
     attemptLoop api 3 (Some (case attemptBody (api 2) of Inl e \<Rightarrow> e | Inr t \<Rightarrow> t))
       [Attempt 1, Sleep 2000, Attempt 2, Sleep 4000]"
proof -
  from assms obtain e1 e2 where e: "attemptBody (api 1) = Inl e1" "isRetryableError e1"
    "attemptBody (api 2) = Inl e2" "isRetryableError e2"
    by (rule retryable_1_2)
  have "generateDescription api = attemptLoop api (1 + 1) (Some e1) ([] @ [Attempt 1, Sleep (2 ^ 1 * 1000)])"
    unfolding generateDescription_def using e(1,2) by (rule attemptLoop_retry) (simp add: maxRetries_def)
  also have "\<dots> = attemptLoop api 2 (Some e1) [Attempt 1, Sleep 2000]"
    by (simp add: numeral_2_eq_2)
  also have "\<dots> = attemptLoop api (2 + 1) (Some e2) ([Attempt 1, Sleep 2000] @ [Attempt 2, Sleep (2 ^ 2 * 1000)])"
    using e(3,4) by (rule attemptLoop_retry) (simp add: maxRetries_def)
  also have "\<dots> = attemptLoop api 3 (Some e2) [Attempt 1, Sleep 2000, Attempt 2, Sleep 4000]" by simp
  finally show ?thesis using e(3) by simp
qed

lemma first_retried:
  assumes "retryableUntil api 2"
  shows "generateDescription api =
     attemptLoop api 2 (Some (case attemptBody (api 1) of Inl e \<Rightarrow> e | Inr t \<Rightarrow> t))
       [Attempt 1, Sleep 2000]"
proof -
  from assms obtain e1 where e: "attemptBody (api 1) = Inl e1" "isRetryableError e1"
    by (rule retryable_1)
  have "generateDescription api = attemptLoop api (1 + 1) (Some e1) ([] @ [Attempt 1, Sleep (2 ^ 1 * 1000)])"
    unfolding generateDescription_def using e(1,2) by (rule attemptLoop_retry) (simp add: maxRetries_def)
  also have "\<dots> = attemptLoop api 2 (Some e1) [Attempt 1, Sleep 2000]"
    by (simp add: numeral_2_eq_2)
  finally show ?thesis using e(1) by simp
qed

lemma exhausted:
  assumes "retryableUntil api 4" and "failure api 3 = Some err"
  shows "generateDescription api = \<lparr> outcome = Inl err, trace = retryTrace 3 \<rparr>"
proof -
  from assms have r: "retryableUntil api 3" and e: "attemptBody (api 3) = Inl err"
    "isRetryableError err"
    by (auto simp: retryableUntil_4 failure_Some)
  have "attemptLoop api 3 lastError tr = \<lparr> outcome = Inl err, trace = tr @ [Attempt 3] \<rparr>"
    for lastError tr
    using e by (rule attemptLoop_last_retry) (simp add: maxRetries_def)
  then have "generateDescription api =
      \<lparr> outcome = Inl err, trace = [Attempt 1, Sleep 2000, Attempt 2, Sleep 4000] @ [Attempt 3] \<rparr>"
    unfolding first_two_retried [OF r] by (simp only:)
  then show ?thesis by (simp only: retryTrace_values) simp
qed

lemma fatal_at:
  assumes "1 \<le> k" and "k \<le> 3" and "retryableUntil api k"
    and "failure api k = Some err" and "\<not> isRetryableError err"
  shows "generateDescription api = \<lparr> outcome = Inl err, trace = retryTrace k \<rparr>"
proof -
  from assms(4) have e: "attemptBody (api k) = Inl err" by (simp add: failure_Some)
  from assms(2) have le: "k \<le> maxRetries" by (simp add: maxRetries_def)
  have loop: "attemptLoop api k lastError tr = \<lparr> outcome = Inl err, trace = tr @ [Attempt k] \<rparr>"
    for lastError tr
    using e assms(5) le by (rule attemptLoop_fatal)
  from assms(1,2) consider "k = 1" | "k = 2" | "k = 3" by linarith
  then show ?thesis
  proof cases
    case 1
    have "generateDescription api = \<lparr> outcome = Inl err, trace = [] @ [Attempt 1] \<rparr>"
      unfolding generateDescription_def using loop [of None "[]"] by (simp only: 1)
    then show ?thesis by (simp only: 1 retryTrace_values) simp
  next
    case 2
    with assms(3) have r: "retryableUntil api 2" by simp
    have "generateDescription api =
        \<lparr> outcome = Inl err, trace = [Attempt 1, Sleep 2000] @ [Attempt 2] \<rparr>"
      unfolding first_retried [OF r] using loop by (simp only: 2)
    then show ?thesis by (simp only: 2 retryTrace_values) simp
  next
    case 3
    with assms(3) have r: "retryableUntil api 3" by simp
    have "generateDescription api =
        \<lparr> outcome = Inl err, trace = [Attempt 1, Sleep 2000, Attempt 2, Sleep 4000] @ [Attempt 3] \<rparr>"
      unfolding first_two_retried [OF r] using loop by (simp only: 3)
    then show ?thesis by (simp only: 3 retryTrace_values) simp
  qed
qed

lemma attempts_retryTrace: "1 \<le> k \<Longrightarrow> attempts (retryTrace k) = [1..<Suc k]"
proof -
  assume "1 \<le> k"
  have "attempts (concat (map (\<lambda>n. [Attempt n, Sleep (2 ^ n * 1000)]) ns)) = ns" for ns
    by (induction ns) (simp_all add: attempts_simps)
  with \<open>1 \<le> k\<close> show ?thesis by (simp add: retryTrace_def attempts_append attempts_simps)
qed

lemma isRetryableError_iff:
  "isRetryableError err \<longleftrightarrow>
     (\<exists>p \<in> set transientSignatures. includesStr (toLowerCase err) p)"
  by (simp add: isRetryableError_def transientSignatures_def Let_def)

lemma empty_response_fatal:
  "\<not> isRetryableError ''Empty response received from Gemini API''"
  by code_simp

text \<open>
  Claim C7. The retry loop of \<open>generateDescription\<close> calls the generator at most 3
  times. An error whose lower-cased message contains one of the transient signatures is
  retried, after a sleep of 2000 and then 4000 milliseconds, until the third attempt, whose
  error is then the outcome. An error of any other message ends the run at once with this
  error and no further call; the error of an empty response is of this kind.
\<close>

theorem generateDescription_retry_policy:
  "length (attempts (trace (generateDescription api))) \<le> 3
   \<and> (retryableUntil api 4 \<and> failure api 3 = Some err \<longrightarrow>
        generateDescription api =
          \<lparr> outcome = Inl err,
            trace = [Attempt 1, Sleep 2000, Attempt 2, Sleep 4000, Attempt 3] \<rparr>)
   \<and> (1 \<le> k \<and> k \<le> 3 \<and> retryableUntil api k \<and> failure api k = Some err \<and>
      \<not> isRetryableError err \<longrightarrow>
        generateDescription api = \<lparr> outcome = Inl err, trace = retryTrace k \<rparr>
        \<and> attempts (retryTrace k) = [1..<Suc k])
   \<and> (isRetryableError err \<longleftrightarrow>
        (\<exists>p \<in> set transientSignatures. includesStr (toLowerCase err) p))
   \<and> (api k = Text t \<and> trim t = [] \<longrightarrow>
        failure api k = Some ''Empty response received from Gemini API'')
   \<and> \<not> isRetryableError ''Empty response received from Gemini API''"
proof (intro conjI impI)
  show "length (attempts (trace (generateDescription api))) \<le> 3"
    by (rule generateDescription_calls)
next
  assume "retryableUntil api 4 \<and> failure api 3 = Some err"
  then have "generateDescription api = \<lparr> outcome = Inl err, trace = retryTrace 3 \<rparr>"
    using exhausted by blast
  then show "generateDescription api =
          \<lparr> outcome = Inl err,
            trace = [Attempt 1, Sleep 2000, Attempt 2, Sleep 4000, Attempt 3] \<rparr>"
    by (simp only: retryTrace_values)
next
  assume a: "1 \<le> k \<and> k \<le> 3 \<and> retryableUntil api k \<and> failure api k = Some err \<and>
      \<not> isRetryableError err"
  then show "generateDescription api = \<lparr> outcome = Inl err, trace = retryTrace k \<rparr>"
    using fatal_at by blast
  from a show "attempts (retryTrace k) = [1..<Suc k]"
    using attempts_retryTrace by blast
next
  show "isRetryableError err \<longleftrightarrow>
        (\<exists>p \<in> set transientSignatures. includesStr (toLowerCase err) p)"
    by (rule isRetryableError_iff)
next
  assume "api k = Text t \<and> trim t = []"
  then show "failure api k = Some ''Empty response received from Gemini API''"
    by (simp add: failure_def)
next
  show "\<not> isRetryableError ''Empty response received from Gemini API''"
    by (rule empty_response_fatal)
qed

theorem generateDescription_retry_policy_witness:
  "generateDescription (\<lambda>n. Throws ''503 Service Unavailable'') =
     \<lparr> outcome = Inl ''503 Service Unavailable'',
       trace = [Attempt 1, Sleep 2000, Attempt 2, Sleep 4000, Attempt 3] \<rparr>
   \<and> generateDescription (\<lambda>n. if n = 2 then Text ''  '' else Throws ''Request timed out'') =
     \<lparr> outcome = Inl ''Empty response received from Gemini API'',
       trace = [Attempt 1, Sleep 2000, Attempt 2] \<rparr>"
proof -
  let ?a = "\<lambda>n::nat. Throws ''503 Service Unavailable''"
  let ?b = "\<lambda>n::nat. if n = 2 then Text ''  '' else Throws ''Request timed out''"
  have h1: "retryableUntil ?a 4 \<and> failure ?a 3 = Some ''503 Service Unavailable''"
    by code_simp
  have h2: "(1::nat) \<le> 2 \<and> (2::nat) \<le> 3 \<and> retryableUntil ?b 2 \<and>
      failure ?b 2 = Some ''Empty response received from Gemini API'' \<and>
      \<not> isRetryableError ''Empty response received from Gemini API''"
    by code_simp
  from generateDescription_retry_policy [of ?a "''503 Service Unavailable''" 1 "[]"] h1
  have "generateDescription ?a =
     \<lparr> outcome = Inl ''503 Service Unavailable'',
       trace = [Attempt 1, Sleep 2000, Attempt 2, Sleep 4000, Attempt 3] \<rparr>"
    by blast
  moreover
  from generateDescription_retry_policy [of ?b "''Empty response received from Gemini API''" 2 "[]"] h2
  have "generateDescription ?b =
     \<lparr> outcome = Inl ''Empty response received from Gemini API'', trace = retryTrace 2 \<rparr>"
    by blast
  ultimately show ?thesis by (simp only: retryTrace_values)
qed

end
